theory Spec2Isabelle
  imports
    Main
    "HOL-Library.AList"
    "HOL-Library.Char_ord"
    "HOL-Library.List_Lexorder"
    "HOL-Library.Product_Lexorder"
begin

section \<open>Round-robin cafe scheduler (scheduler.py)\<close>

text \<open>
  A shallow embedding of \<^verbatim>\<open>src/scheduler.py\<close>. Python dictionaries keep insertion
  order, so every dictionary is an association list: \<open>k in d\<close> and \<open>d[k]\<close> are
  \<open>map_of d k\<close> (a missing key is a \<open>KeyError\<close>), \<open>d[k] = v\<close> is \<open>AList.update k v d\<close>
  (replace in place, or append a new key at the end) and \<open>d.values()\<close> is \<open>map snd d\<close>.
  Python integers are \<open>int\<close>. Every method takes the object first and returns the
  mutated object beside its result; an exception is the value \<open>Inl e\<close>.
\<close>

subsection \<open>Formatting\<close>

text \<open>The decimal digits of a natural number, most significant first.\<close>

fun digits :: "nat \<Rightarrow> string" where
  "digits n =
     (if n < 10 then [char_of (48 + n)]
      else digits (n div 10) @ [char_of (48 + n mod 10)])"

declare digits.simps [simp del]

text \<open>\<^verbatim>\<open>f"{i}"\<close> for an integer.\<close>

definition str_int :: "int \<Rightarrow> string" where
  "str_int i = (if i < 0 then ''-'' @ digits (nat (- i)) else digits (nat i))"

text \<open>\<^verbatim>\<open>f"{i:03d}"\<close>: sign first, then zeros up to a total width of 3.\<close>

definition fmt_03d :: "int \<Rightarrow> string" where
  "fmt_03d i =
     (let sgn = (if i < 0 then ''-'' else '''');
          ds = digits (nat \<bar>i\<bar>)
      in sgn @ replicate (3 - length sgn - length ds) (CHR ''0'') @ ds)"

text \<open>\<^verbatim>\<open>sep.join(xs)\<close>\<close>

fun join :: "string \<Rightarrow> string list \<Rightarrow> string" where
  "join sep [] = []"
| "join sep [x] = x"
| "join sep (x # y # ys) = x @ sep @ join sep (y # ys)"

subsection \<open>Errors\<close>

datatype error = KeyError | IndexError | AttributeError

text \<open>
  List subscription \<^verbatim>\<open>xs[i]\<close>. Python reads \<open>-1\<close> as the last element, and
  raises outside \<open>-len(xs) .. len(xs) - 1\<close>.
\<close>

definition py_index :: "'a list \<Rightarrow> int \<Rightarrow> error + 'a" where
  "py_index xs i =
     (if 0 \<le> i \<and> i < int (length xs) then Inr (xs ! nat i)
      else if i < 0 \<and> - int (length xs) \<le> i then Inr (xs ! nat (int (length xs) + i))
      else Inl IndexError)"

subsection \<open>Menu, Task, QueueRR\<close>

definition REQUIRED_MENU :: "(string \<times> int) list" where
  "REQUIRED_MENU =
     [(''americano'', 2), (''latte'', 3), (''cappuccino'', 3), (''mocha'', 4),
      (''tea'', 1), (''macchiato'', 2), (''hot_chocolate'', 4)]"

record Task =
  task_id :: string
  remaining :: int

record QueueRR =
  queue_id :: string
  capacity :: int
  data :: "Task list"

definition QueueRR_init :: "string \<Rightarrow> int \<Rightarrow> QueueRR" where
  "QueueRR_init qid cap = \<lparr>queue_id = qid, capacity = cap, data = []\<rparr>"

definition QueueRR_len :: "QueueRR \<Rightarrow> int" where
  "QueueRR_len q = int (length (data q))"

definition QueueRR_enqueue :: "QueueRR \<Rightarrow> Task \<Rightarrow> bool \<times> QueueRR" where
  "QueueRR_enqueue q task =
     (if int (length (data q)) \<ge> capacity q then (False, q)
      else (True, q\<lparr>data := data q @ [task]\<rparr>))"

definition QueueRR_dequeue :: "QueueRR \<Rightarrow> Task option \<times> QueueRR" where
  "QueueRR_dequeue q =
     (case data q of
        [] \<Rightarrow> (None, q)
      | t # ts \<Rightarrow> (Some t, q\<lparr>data := ts\<rparr>))"

definition QueueRR_peek :: "QueueRR \<Rightarrow> Task option" where
  "QueueRR_peek q = (case data q of [] \<Rightarrow> None | t # ts \<Rightarrow> Some t)"

subsection \<open>Scheduler\<close>

text \<open>The field \<open>self_menu\<close> is the attribute \<^verbatim>\<open>_menu\<close>.\<close>

record Scheduler =
  time :: int
  queues :: "(string \<times> QueueRR) list"
  queue_order :: "string list"
  id_counter :: "(string \<times> int) list"
  skip_flags :: "(string \<times> bool) list"
  rr_index :: int
  self_menu :: "(string \<times> int) list"

definition Scheduler_init :: Scheduler where
  "Scheduler_init =
     \<lparr>time = 0, queues = [], queue_order = [], id_counter = [], skip_flags = [],
      rr_index = 0, self_menu = REQUIRED_MENU\<rparr>"

definition menu :: "Scheduler \<Rightarrow> (string \<times> int) list" where
  "menu s = self_menu s"

definition next_queue :: "Scheduler \<Rightarrow> string option" where
  "next_queue s =
     (if queue_order s = [] then None
      else Some (queue_order s ! nat (rr_index s mod int (length (queue_order s)))))"

subsubsection \<open>Log lines\<close>

definition ev_create :: "int \<Rightarrow> string \<Rightarrow> string" where
  "ev_create t qid = ''time='' @ str_int t @ '' event=create queue='' @ qid"

definition ev_reject :: "int \<Rightarrow> string \<Rightarrow> string \<Rightarrow> string \<Rightarrow> string" where
  "ev_reject t qid tid reason =
     ''time='' @ str_int t @ '' event=reject queue='' @ qid @ '' task='' @ tid
       @ '' reason='' @ reason"

definition ev_enqueue :: "int \<Rightarrow> string \<Rightarrow> string \<Rightarrow> int \<Rightarrow> string" where
  "ev_enqueue t qid tid burst =
     ''time='' @ str_int t @ '' event=enqueue queue='' @ qid @ '' task='' @ tid
       @ '' remaining='' @ str_int burst"

definition ev_skip :: "int \<Rightarrow> string \<Rightarrow> string" where
  "ev_skip t qid = ''time='' @ str_int t @ '' event=skip queue='' @ qid"

definition ev_run :: "int \<Rightarrow> string \<Rightarrow> string" where
  "ev_run t qid = ''time='' @ str_int t @ '' event=run queue='' @ qid"

definition ev_work :: "int \<Rightarrow> string \<Rightarrow> string \<Rightarrow> int \<Rightarrow> string" where
  "ev_work t qid tid r =
     ''time='' @ str_int t @ '' event=work queue='' @ qid @ '' task='' @ tid
       @ '' remaining='' @ str_int r"

definition ev_finish :: "int \<Rightarrow> string \<Rightarrow> string \<Rightarrow> string" where
  "ev_finish t qid tid =
     ''time='' @ str_int t @ '' event=finish queue='' @ qid @ '' task='' @ tid"

definition ev_error :: "int \<Rightarrow> string" where
  "ev_error t = ''time='' @ str_int t @ '' event=error reason=invalid_steps''"

text \<open>\<^verbatim>\<open>f"{queue_id}-{self.id_counter[queue_id]:03d}"\<close>\<close>

definition mk_task_id :: "string \<Rightarrow> int \<Rightarrow> string" where
  "mk_task_id qid c = qid @ ''-'' @ fmt_03d c"

subsubsection \<open>Queue creation\<close>

definition create_queue :: "Scheduler \<Rightarrow> string \<Rightarrow> int \<Rightarrow> string list \<times> Scheduler" where
  "create_queue s qid cap =
     (if map_of (queues s) qid = None then
        ([ev_create (time s) qid],
         s\<lparr>queues := AList.update qid (QueueRR_init qid cap) (queues s),
           queue_order := queue_order s @ [qid],
           id_counter := AList.update qid 0 (id_counter s),
           skip_flags := AList.update qid False (skip_flags s)\<rparr>)
      else ([], s))"

subsubsection \<open>Enqueue\<close>

text \<open>
  The result is the returned log, the lines printed on standard output, and the scheduler.
\<close>

definition enqueue ::
  "Scheduler \<Rightarrow> string \<Rightarrow> string \<Rightarrow> error + (string list \<times> string list \<times> Scheduler)" where
  "enqueue s qid item_name =
     (case map_of (queues s) qid of
        None \<Rightarrow> Inr ([], [], s)
      | Some q \<Rightarrow>
          (case map_of (id_counter s) qid of
             None \<Rightarrow> Inl KeyError
           | Some c \<Rightarrow>
               let s1 = s\<lparr>id_counter := AList.update qid (c + 1) (id_counter s)\<rparr>;
                   tid = mk_task_id qid (c + 1)
               in (case map_of (self_menu s1) item_name of
                     None \<Rightarrow>
                       Inr ([ev_reject (time s1) qid tid ''unknown_item''],
                            [''Sorry, we don't serve that.''], s1)
                   | Some burst \<Rightarrow>
                       (case QueueRR_enqueue q \<lparr>task_id = tid, remaining = burst\<rparr> of
                          (False, q') \<Rightarrow>
                            Inr ([ev_reject (time s1) qid tid ''full''],
                                 [''Sorry, we're at capacity.''], s1)
                        | (True, q') \<Rightarrow>
                            Inr ([ev_enqueue (time s1) qid tid burst], [],
                                 s1\<lparr>queues := AList.update qid q' (queues s1)\<rparr>)))))"

subsubsection \<open>Mark skip\<close>

definition mark_skip :: "Scheduler \<Rightarrow> string \<Rightarrow> string list \<times> Scheduler" where
  "mark_skip s qid =
     (if map_of (skip_flags s) qid \<noteq> None then
        ([ev_skip (time s) qid],
         s\<lparr>skip_flags := AList.update qid True (skip_flags s)\<rparr>)
      else ([], s))"

subsubsection \<open>Display\<close>

definition display_queue_line :: "string \<Rightarrow> QueueRR \<Rightarrow> bool \<Rightarrow> string" where
  "display_queue_line qid q flag =
     ''display '' @ qid @ '' ['' @ str_int (QueueRR_len q) @ ''/'' @ str_int (capacity q)
       @ '']'' @ (if flag then '' [ skip]'' else '''') @ '' -> [''
       @ join '','' (map (\<lambda>t. task_id t @ '':'' @ str_int (remaining t)) (data q)) @ '']''"

fun display_queues :: "Scheduler \<Rightarrow> string list \<Rightarrow> error + string list" where
  "display_queues s [] = Inr []"
| "display_queues s (qid # rest) =
     (case map_of (queues s) qid of
        None \<Rightarrow> Inl KeyError
      | Some q \<Rightarrow>
          (case map_of (skip_flags s) qid of
             None \<Rightarrow> Inl KeyError
           | Some flag \<Rightarrow>
               (case display_queues s rest of
                  Inl e \<Rightarrow> Inl e
                | Inr ls \<Rightarrow> Inr (display_queue_line qid q flag # ls))))"

definition display :: "Scheduler \<Rightarrow> error + string list" where
  "display s =
     (let next_qid = (case next_queue s of
                        None \<Rightarrow> ''none''
                      | Some qid \<Rightarrow> if qid = [] then ''none'' else qid);
          l1 = ''display time='' @ str_int (time s) @ '' next='' @ next_qid;
          menu_items = join '',''
            (map (\<lambda>(name, mins). name @ '':'' @ str_int mins) (sort (self_menu s)));
          l2 = ''display menu=['' @ menu_items @ '']''
      in case display_queues s (queue_order s) of
           Inl e \<Rightarrow> Inl e
         | Inr ls \<Rightarrow> Inr (l1 # l2 # ls))"

subsubsection \<open>Run\<close>

definition all_empty :: "Scheduler \<Rightarrow> bool" where
  "all_empty s = list_all (\<lambda>qx. QueueRR_len qx = 0) (map snd (queues s))"

definition no_skips :: "Scheduler \<Rightarrow> bool" where
  "no_skips s = (\<not> list_ex (\<lambda>f. f) (map snd (skip_flags s)))"

text \<open>
  One pass through the body of the \<^verbatim>\<open>while\<close> loop up to and including
  \<^verbatim>\<open>logs.extend(self.display())\<close>: the lines it appends and the scheduler after it.
\<close>

definition turn :: "int \<Rightarrow> int \<Rightarrow> Scheduler \<Rightarrow> error + (string list \<times> Scheduler)" where
  "turn quantum n_queues s =
     (case py_index (queue_order s) (rr_index s) of
        Inl e \<Rightarrow> Inl e
      | Inr qid \<Rightarrow>
     (case map_of (queues s) qid of
        None \<Rightarrow> Inl KeyError
      | Some q \<Rightarrow>
     (case map_of (skip_flags s) qid of
        None \<Rightarrow> Inl KeyError
      | Some flag \<Rightarrow>
     (case
        (if flag then
           Inr ([ev_run (time s) qid],
                s\<lparr>skip_flags := AList.update qid False (skip_flags s)\<rparr>)
         else if QueueRR_len q > 0 then
           (case QueueRR_dequeue q of
              (None, q1) \<Rightarrow> Inl AttributeError
            | (Some task, q1) \<Rightarrow>
                let work_time = min (remaining task) quantum;
                    task' = task\<lparr>remaining := remaining task - work_time\<rparr>;
                    t' = time s + work_time
                in if remaining task' > 0 then
                     Inr ([ev_run (time s) qid,
                           ev_work t' qid (task_id task') (remaining task')],
                          s\<lparr>time := t',
                            queues := AList.update qid (snd (QueueRR_enqueue q1 task'))
                                        (queues s)\<rparr>)
                   else
                     Inr ([ev_run (time s) qid, ev_finish t' qid (task_id task')],
                          s\<lparr>time := t', queues := AList.update qid q1 (queues s)\<rparr>))
         else Inr ([ev_run (time s) qid], s))
      of
        Inl e \<Rightarrow> Inl e
      | Inr (logs, s2) \<Rightarrow>
          let s3 = s2\<lparr>rr_index := (rr_index s2 + 1) mod n_queues\<rparr>
          in (case display s3 of
                Inl e \<Rightarrow> Inl e
              | Inr ls \<Rightarrow> Inr (logs @ ls, s3))))))"

text \<open>
  The \<^verbatim>\<open>while turns_done < turns\<close> loop. The result is the loop's state when it
  is left: the log, \<^verbatim>\<open>turns_done\<close> and the scheduler.
\<close>

function run_loop ::
  "int \<Rightarrow> int option \<Rightarrow> int \<Rightarrow> int \<Rightarrow> int \<Rightarrow> string list \<Rightarrow> Scheduler
     \<Rightarrow> error + (string list \<times> int \<times> Scheduler)" where
  "run_loop quantum steps n_queues turns turns_done logs s =
     (if turns_done < turns then
        (if n_queues = 0 then Inr (logs, turns_done, s)
         else (case turn quantum n_queues s of
                 Inl e \<Rightarrow> Inl e
               | Inr (ls, s') \<Rightarrow>
                   if steps = None \<and> all_empty s' \<and> no_skips s'
                   then Inr (logs @ ls, turns_done + 1, s')
                   else run_loop quantum steps n_queues turns (turns_done + 1) (logs @ ls) s'))
      else Inr (logs, turns_done, s))"
  by pat_completeness auto
termination
  by (relation "measure (\<lambda>(quantum, steps, n_queues, turns, turns_done, logs, s).
        nat (turns - turns_done))") auto

declare run_loop.simps [simp del]

definition run_full ::
  "Scheduler \<Rightarrow> int \<Rightarrow> int option \<Rightarrow> error + (string list \<times> int \<times> Scheduler)" where
  "run_full s quantum steps =
     (let n_queues = int (length (queue_order s)) in
      if n_queues = 0 then Inr ([], 0, s)
      else (case steps of
              Some st \<Rightarrow>
                if st < 1 \<or> st > n_queues then Inr ([ev_error (time s)], 0, s)
                else run_loop quantum steps n_queues st 0 [] s
            | None \<Rightarrow> run_loop quantum steps n_queues (n_queues * 100) 0 [] s))"

text \<open>\<^verbatim>\<open>Scheduler.run\<close>: the returned log and the scheduler.\<close>

definition run :: "Scheduler \<Rightarrow> int \<Rightarrow> int option \<Rightarrow> error + (string list \<times> Scheduler)" where
  "run s quantum steps =
     (case run_full s quantum steps of
        Inl e \<Rightarrow> Inl e
      | Inr (logs, turns_done, s') \<Rightarrow> Inr (logs, s'))"

subsection \<open>Reachable schedulers\<close>

text \<open>
  One step of a scheduler's life: a call of \<open>create_queue\<close>, \<open>enqueue\<close> or
  \<open>mark_skip\<close> with any arguments, or one dispatch turn of a running \<open>run\<close>. A
  scheduler is reachable when a sequence of steps leads to it from the constructor's
  state, so the states between the turns of a \<open>run\<close> are reachable too.
\<close>

inductive step :: "Scheduler \<Rightarrow> Scheduler \<Rightarrow> bool" where
  step_create: "step s (snd (create_queue s qid cap))"
| step_enqueue: "enqueue s qid item_name = Inr (logs, out, s') \<Longrightarrow> step s s'"
| step_mark_skip: "step s (snd (mark_skip s qid))"
| step_turn: "queue_order s \<noteq> [] \<Longrightarrow>
     turn quantum (int (length (queue_order s))) s = Inr (logs, s') \<Longrightarrow> step s s'"

definition reachable :: "Scheduler \<Rightarrow> bool" where
  "reachable s = rtranclp step Scheduler_init s"

text \<open>The invariant of the reachable schedulers.\<close>

definition keys_ok :: "Scheduler \<Rightarrow> bool" where
  "keys_ok s \<longleftrightarrow>
     map fst (queues s) = queue_order s \<and> map fst (id_counter s) = queue_order s \<and>
     map fst (skip_flags s) = queue_order s"

definition index_ok :: "Scheduler \<Rightarrow> bool" where
  "index_ok s \<longleftrightarrow>
     0 \<le> rr_index s \<and> (rr_index s = 0 \<or> rr_index s < int (length (queue_order s)))"

definition within_capacity :: "QueueRR \<Rightarrow> bool" where
  "within_capacity q \<longleftrightarrow> int (length (data q)) \<le> max 0 (capacity q)"

definition Inv :: "Scheduler \<Rightarrow> bool" where
  "Inv s \<longleftrightarrow>
     keys_ok s \<and> index_ok s \<and> list_all within_capacity (map snd (queues s)) \<and>
     self_menu s = REQUIRED_MENU"

text \<open>The scheduler after \<open>k\<close> dispatch turns, when none of them raises.\<close>

fun after_turns :: "int \<Rightarrow> int \<Rightarrow> nat \<Rightarrow> Scheduler \<Rightarrow> error + Scheduler" where
  "after_turns quantum n_queues 0 s = Inr s"
| "after_turns quantum n_queues (Suc k) s =
     (case turn quantum n_queues s of
        Inl e \<Rightarrow> Inl e
      | Inr (ls, s') \<Rightarrow> after_turns quantum n_queues k s')"

text \<open>The condition under which the unbounded loop is left early.\<close>

definition drained :: "Scheduler \<Rightarrow> bool" where
  "drained s \<longleftrightarrow> all_empty s \<and> no_skips s"

subsection \<open>Example schedulers\<close>

text \<open>One queue \<open>c1\<close> of capacity 1, nothing enqueued.\<close>

definition ex_created :: Scheduler where
  "ex_created = snd (create_queue Scheduler_init ''c1'' 1)"

text \<open>The same after \<open>enqueue("c1", "latte")\<close>: the queue is full.\<close>

definition ex_full :: Scheduler where
  "ex_full =
     ex_created\<lparr>id_counter := [(''c1'', 1)],
       queues := [(''c1'', \<lparr>queue_id = ''c1'', capacity = 1,
                           data = [\<lparr>task_id = ''c1-001'', remaining = 3\<rparr>]\<rparr>)]\<rparr>"

text \<open>One queue \<open>c1\<close> created with capacity \<open>-1\<close>.\<close>

definition ex_negative :: Scheduler where
  "ex_negative = snd (create_queue Scheduler_init ''c1'' (- 1))"


text \<open>The full queue again, flagged by \<open>mark_skip("c1")\<close>.\<close>

definition ex_skip :: Scheduler where
  "ex_skip = snd (mark_skip ex_full ''c1'')"

text \<open>
  Two empty queues \<open>c1\<close> and \<open>c2\<close>, the cursor at \<open>c1\<close>, and \<open>c2\<close> flagged by
  \<open>mark_skip("c2")\<close>.
\<close>

definition ex_pending :: Scheduler where
  "ex_pending = snd (mark_skip (snd (create_queue ex_created ''c2'' 1)) ''c2'')"

section \<open>Association lists\<close>

lemma list_all_update:
  "list_all P (map snd al) \<Longrightarrow> P v \<Longrightarrow> list_all P (map snd (AList.update k v al))"
  by (induction al) auto

lemma map_of_list_all:
  "list_all P (map snd al) \<Longrightarrow> map_of al k = Some v \<Longrightarrow> P v"
  by (induction al) (auto split: if_splits)

lemma keys_update_old:
  "map_of al k = Some v \<Longrightarrow> map fst (AList.update k w al) = map fst al"
  by (simp add: update_keys map_of_eq_None_iff[symmetric])

lemma keys_update_new:
  "map_of al k = None \<Longrightarrow> map fst (AList.update k w al) = map fst al @ [k]"
  by (simp add: update_keys map_of_eq_None_iff)

lemma same_keys_lookup:
  "map fst al = map fst bl \<Longrightarrow> map_of al k = None \<longleftrightarrow> map_of bl k = None"
  by (metis map_of_eq_None_iff set_map)

section \<open>The invariant holds in every reachable scheduler\<close>

lemma Inv_init: "Inv Scheduler_init"
  by (simp add: Inv_def keys_ok_def index_ok_def Scheduler_init_def)

lemma Inv_create_queue: "Inv s \<Longrightarrow> Inv (snd (create_queue s qid cap))"
proof (cases "map_of (queues s) qid")
  case None
  assume inv: "Inv s"
  from inv have k: "map fst (queues s) = queue_order s"
    "map fst (id_counter s) = queue_order s" "map fst (skip_flags s) = queue_order s"
    by (simp_all add: Inv_def keys_ok_def)
  from None k have n2: "map_of (id_counter s) qid = None" "map_of (skip_flags s) qid = None"
    by (metis same_keys_lookup)+
  have "within_capacity (QueueRR_init qid cap)"
    by (simp add: within_capacity_def QueueRR_init_def)
  with inv None n2 k show ?thesis
    by (auto simp: create_queue_def Inv_def keys_ok_def index_ok_def keys_update_new
        list_all_update)
next
  case (Some q)
  assume "Inv s"
  then show ?thesis using Some by (simp add: create_queue_def)
qed

lemma Inv_lookups:
  assumes "Inv s" "map_of (queues s) qid = Some q"
  shows "\<exists>c. map_of (id_counter s) qid = Some c" "\<exists>f. map_of (skip_flags s) qid = Some f"
    "within_capacity q"
proof -
  from assms(1) have k: "map fst (queues s) = map fst (id_counter s)"
    "map fst (queues s) = map fst (skip_flags s)"
    by (simp_all add: Inv_def keys_ok_def)
  from assms(2) have "map_of (queues s) qid \<noteq> None" by simp
  with k have "map_of (id_counter s) qid \<noteq> None" "map_of (skip_flags s) qid \<noteq> None"
    using same_keys_lookup by metis+
  then show "\<exists>c. map_of (id_counter s) qid = Some c" "\<exists>f. map_of (skip_flags s) qid = Some f"
    by auto
  from assms show "within_capacity q"
    by (auto simp: Inv_def dest: map_of_list_all)
qed

lemma QueueRR_enqueue_within:
  "within_capacity q \<Longrightarrow> within_capacity (snd (QueueRR_enqueue q t))"
  by (auto simp: within_capacity_def QueueRR_enqueue_def)

lemma QueueRR_dequeue_within:
  "within_capacity q \<Longrightarrow> within_capacity (snd (QueueRR_dequeue q))"
  by (auto simp: within_capacity_def QueueRR_dequeue_def split: list.splits)

lemma Inv_enqueue:
  assumes "Inv s" "enqueue s qid item_name = Inr (logs, out, s')"
  shows "Inv s'"
proof (cases "map_of (queues s) qid")
  case None
  with assms show ?thesis by (simp add: enqueue_def)
next
  case (Some q)
  from Inv_lookups[OF assms(1) Some] obtain c where c: "map_of (id_counter s) qid = Some c"
    and w: "within_capacity q" by auto
  let ?s1 = "s\<lparr>id_counter := AList.update qid (c + 1) (id_counter s)\<rparr>"
  from assms(1) c have i1: "Inv ?s1"
    by (simp add: Inv_def keys_ok_def index_ok_def keys_update_old)
  show ?thesis
  proof (cases "map_of (self_menu s) item_name")
    case None
    with assms(2) Some c have "s' = ?s1" by (simp add: enqueue_def Let_def)
    with i1 show ?thesis by simp
  next
    case (Some burst)
    let ?t = "\<lparr>task_id = mk_task_id qid (c + 1), remaining = burst\<rparr>"
    show ?thesis
    proof (cases "fst (QueueRR_enqueue q ?t)")
      case False
      with assms(2) \<open>map_of (queues s) qid = Some q\<close> c Some have "s' = ?s1"
        by (auto simp: enqueue_def Let_def split: prod.splits bool.splits)
      with i1 show ?thesis by simp
    next
      case True
      with assms(2) \<open>map_of (queues s) qid = Some q\<close> c Some
      have s': "s' = ?s1\<lparr>queues := AList.update qid (snd (QueueRR_enqueue q ?t)) (queues s)\<rparr>"
        by (auto simp: enqueue_def Let_def split: prod.splits bool.splits)
      from w have "within_capacity (snd (QueueRR_enqueue q ?t))"
        by (rule QueueRR_enqueue_within)
      with i1 \<open>map_of (queues s) qid = Some q\<close> show ?thesis unfolding s'
        by (simp add: Inv_def keys_ok_def index_ok_def keys_update_old list_all_update)
    qed
  qed
qed

lemma Inv_mark_skip: "Inv s \<Longrightarrow> Inv (snd (mark_skip s qid))"
  by (auto simp: mark_skip_def Inv_def keys_ok_def index_ok_def keys_update_old)

lemma display_queues_ok:
  "(\<And>qid. qid \<in> set xs \<Longrightarrow> map_of (queues s) qid \<noteq> None \<and> map_of (skip_flags s) qid \<noteq> None)
   \<Longrightarrow> \<exists>ls. display_queues s xs = Inr ls"
proof (induction xs)
  case Nil
  show ?case by simp
next
  case (Cons x xs)
  from Cons.prems[of x] obtain q f where "map_of (queues s) x = Some q"
    "map_of (skip_flags s) x = Some f" by auto
  moreover from Cons obtain ls where "display_queues s xs = Inr ls" by auto
  ultimately show ?case by simp
qed

lemma display_ok:
  assumes "keys_ok s"
  shows "\<exists>ls. display s = Inr ls"
proof -
  have "map_of (queues s) qid \<noteq> None \<and> map_of (skip_flags s) qid \<noteq> None"
    if "qid \<in> set (queue_order s)" for qid
  proof -
    from assms that have "qid \<in> fst ` set (queues s)" "qid \<in> fst ` set (skip_flags s)"
      by (metis keys_ok_def set_map)+
    then show ?thesis by (simp add: map_of_eq_None_iff)
  qed
  then obtain ls where "display_queues s (queue_order s) = Inr ls"
    using display_queues_ok by blast
  then show ?thesis by (simp add: display_def Let_def)
qed

lemma current_queue:
  assumes "Inv s" "queue_order s \<noteq> []"
  shows "\<exists>qid q f. py_index (queue_order s) (rr_index s) = Inr qid \<and>
           map_of (queues s) qid = Some q \<and> map_of (skip_flags s) qid = Some f"
proof -
  from assms have r: "0 \<le> rr_index s" "rr_index s < int (length (queue_order s))"
    by (auto simp: Inv_def index_ok_def)
  let ?qid = "queue_order s ! nat (rr_index s)"
  from r have p: "py_index (queue_order s) (rr_index s) = Inr ?qid"
    by (simp add: py_index_def)
  from r have "?qid \<in> set (queue_order s)" by simp
  with assms(1) have "?qid \<in> fst ` set (queues s)" "?qid \<in> fst ` set (skip_flags s)"
    by (metis Inv_def keys_ok_def set_map)+
  then have "map_of (queues s) ?qid \<noteq> None" "map_of (skip_flags s) ?qid \<noteq> None"
    by (simp_all add: map_of_eq_None_iff)
  with p show ?thesis by auto
qed

text \<open>The three branches of a turn, each with the scheduler it leaves.\<close>

lemma turn_skip:
  assumes "py_index (queue_order s) (rr_index s) = Inr qid"
    and "map_of (queues s) qid = Some q"
    and "map_of (skip_flags s) qid = Some True"
    and "display (s\<lparr>skip_flags := AList.update qid False (skip_flags s),
                    rr_index := (rr_index s + 1) mod n\<rparr>) = Inr dl"
  shows "turn quantum n s =
           Inr (ev_run (time s) qid # dl,
                s\<lparr>skip_flags := AList.update qid False (skip_flags s),
                  rr_index := (rr_index s + 1) mod n\<rparr>)"
  using assms by (simp add: turn_def Let_def)

lemma turn_empty:
  assumes "py_index (queue_order s) (rr_index s) = Inr qid"
    and "map_of (queues s) qid = Some q"
    and "map_of (skip_flags s) qid = Some False"
    and "data q = []"
    and "display (s\<lparr>rr_index := (rr_index s + 1) mod n\<rparr>) = Inr dl"
  shows "turn quantum n s =
           Inr (ev_run (time s) qid # dl, s\<lparr>rr_index := (rr_index s + 1) mod n\<rparr>)"
  using assms by (simp add: turn_def Let_def QueueRR_len_def)

lemma turn_work:
  assumes "py_index (queue_order s) (rr_index s) = Inr qid"
    and "map_of (queues s) qid = Some q"
    and "map_of (skip_flags s) qid = Some False"
    and "data q = t # ts"
    and "min (remaining t) quantum = w"
    and "remaining t - w > 0"
    and "display (s\<lparr>time := time s + w,
                    queues := AList.update qid
                      (snd (QueueRR_enqueue (q\<lparr>data := ts\<rparr>) (t\<lparr>remaining := remaining t - w\<rparr>)))
                      (queues s),
                    rr_index := (rr_index s + 1) mod n\<rparr>) = Inr dl"
  shows "turn quantum n s =
           Inr (ev_run (time s) qid
                  # ev_work (time s + w) qid (task_id t) (remaining t - w) # dl,
                s\<lparr>time := time s + w,
                  queues := AList.update qid
                    (snd (QueueRR_enqueue (q\<lparr>data := ts\<rparr>) (t\<lparr>remaining := remaining t - w\<rparr>)))
                    (queues s),
                  rr_index := (rr_index s + 1) mod n\<rparr>)"
  using assms by (simp add: turn_def Let_def QueueRR_len_def QueueRR_dequeue_def)

lemma turn_finish:
  assumes "py_index (queue_order s) (rr_index s) = Inr qid"
    and "map_of (queues s) qid = Some q"
    and "map_of (skip_flags s) qid = Some False"
    and "data q = t # ts"
    and "min (remaining t) quantum = w"
    and "\<not> remaining t - w > 0"
    and "display (s\<lparr>time := time s + w,
                    queues := AList.update qid (q\<lparr>data := ts\<rparr>) (queues s),
                    rr_index := (rr_index s + 1) mod n\<rparr>) = Inr dl"
  shows "turn quantum n s =
           Inr (ev_run (time s) qid # ev_finish (time s + w) qid (task_id t) # dl,
                s\<lparr>time := time s + w,
                  queues := AList.update qid (q\<lparr>data := ts\<rparr>) (queues s),
                  rr_index := (rr_index s + 1) mod n\<rparr>)"
  using assms by (simp add: turn_def Let_def QueueRR_len_def QueueRR_dequeue_def)

lemma next_index:
  "queue_order s \<noteq> [] \<Longrightarrow>
   index_ok (s\<lparr>rr_index := (rr_index s + 1) mod int (length (queue_order s))\<rparr>)"
  by (simp add: index_ok_def)

lemma Inv_after_skip:
  assumes "Inv s" "queue_order s \<noteq> []" "map_of (skip_flags s) qid = Some f"
  shows "Inv (s\<lparr>skip_flags := AList.update qid False (skip_flags s),
                rr_index := (rr_index s + 1) mod int (length (queue_order s))\<rparr>)"
  using assms by (simp add: Inv_def keys_ok_def index_ok_def keys_update_old)

lemma Inv_after_empty:
  assumes "Inv s" "queue_order s \<noteq> []"
  shows "Inv (s\<lparr>rr_index := (rr_index s + 1) mod int (length (queue_order s))\<rparr>)"
  using assms by (simp add: Inv_def keys_ok_def index_ok_def)

lemma Inv_after_work:
  assumes "Inv s" "queue_order s \<noteq> []" "map_of (queues s) qid = Some q"
    "within_capacity q'"
  shows "Inv (s\<lparr>time := t, queues := AList.update qid q' (queues s),
                rr_index := (rr_index s + 1) mod int (length (queue_order s))\<rparr>)"
  using assms
  by (simp add: Inv_def keys_ok_def index_ok_def keys_update_old list_all_update)

lemma Inv_keys_ok: "Inv s \<Longrightarrow> keys_ok s"
  by (simp add: Inv_def)

lemma turn_total:
  assumes inv: "Inv s" and ne: "queue_order s \<noteq> []"
  shows "\<exists>logs s'. turn quantum (int (length (queue_order s))) s = Inr (logs, s') \<and>
           Inv s' \<and> queue_order s' = queue_order s"
proof -
  let ?n = "int (length (queue_order s))"
  from current_queue[OF inv ne] obtain qid q f where
    p: "py_index (queue_order s) (rr_index s) = Inr qid" and
    q: "map_of (queues s) qid = Some q" and f: "map_of (skip_flags s) qid = Some f"
    by blast
  from Inv_lookups(3)[OF inv q] have wq: "within_capacity q" .
  show ?thesis
  proof (cases f)
    case True
    let ?s' = "s\<lparr>skip_flags := AList.update qid False (skip_flags s),
                  rr_index := (rr_index s + 1) mod ?n\<rparr>"
    have i: "Inv ?s'" using Inv_after_skip[OF inv ne f] .
    then obtain dl where "display ?s' = Inr dl" using display_ok Inv_keys_ok by blast
    with p q f True have "turn quantum ?n s = Inr (ev_run (time s) qid # dl, ?s')"
      by (simp add: turn_skip)
    with i show ?thesis by simp
  next
    case False
    show ?thesis
    proof (cases "data q")
      case Nil
      let ?s' = "s\<lparr>rr_index := (rr_index s + 1) mod ?n\<rparr>"
      have i: "Inv ?s'" using Inv_after_empty[OF inv ne] .
      then obtain dl where "display ?s' = Inr dl" using display_ok Inv_keys_ok by blast
      with p q f False Nil have "turn quantum ?n s = Inr (ev_run (time s) qid # dl, ?s')"
        by (simp add: turn_empty)
      with i show ?thesis by simp
    next
      case (Cons t ts)
      define w where "w = min (remaining t) quantum"
      from wq Cons have w1: "within_capacity (q\<lparr>data := ts\<rparr>)"
        by (simp add: within_capacity_def)
      show ?thesis
      proof (cases "remaining t - w > 0")
        case True
        let ?q' = "snd (QueueRR_enqueue (q\<lparr>data := ts\<rparr>) (t\<lparr>remaining := remaining t - w\<rparr>))"
        let ?s' = "s\<lparr>time := time s + w, queues := AList.update qid ?q' (queues s),
                      rr_index := (rr_index s + 1) mod ?n\<rparr>"
        from w1 have "within_capacity ?q'" by (rule QueueRR_enqueue_within)
        then have i: "Inv ?s'" using Inv_after_work[OF inv ne q] by blast
        then obtain dl where d: "display ?s' = Inr dl" using display_ok Inv_keys_ok by blast
        have "turn quantum ?n s =
                Inr (ev_run (time s) qid
                       # ev_work (time s + w) qid (task_id t) (remaining t - w) # dl, ?s')"
          using p q _ Cons w_def[symmetric] True d
          by (rule turn_work) (simp add: f \<open>\<not> f\<close>)
        with i show ?thesis by simp
      next
        case nf: False
        let ?s' = "s\<lparr>time := time s + w, queues := AList.update qid (q\<lparr>data := ts\<rparr>) (queues s),
                      rr_index := (rr_index s + 1) mod ?n\<rparr>"
        from w1 have i: "Inv ?s'" using Inv_after_work[OF inv ne q] by blast
        then obtain dl where d: "display ?s' = Inr dl" using display_ok Inv_keys_ok by blast
        have "turn quantum ?n s =
                Inr (ev_run (time s) qid # ev_finish (time s + w) qid (task_id t) # dl, ?s')"
          using p q _ Cons w_def[symmetric] nf d
          by (rule turn_finish) (simp add: f \<open>\<not> f\<close>)
        with i show ?thesis by simp
      qed
    qed
  qed
qed

lemma Inv_step: "step s s' \<Longrightarrow> Inv s \<Longrightarrow> Inv s'"
proof (induction rule: step.induct)
  case (step_create s qid cap)
  then show ?case by (rule Inv_create_queue)
next
  case (step_enqueue s qid item_name logs out s')
  then show ?case using Inv_enqueue by blast
next
  case (step_mark_skip s qid)
  then show ?case by (rule Inv_mark_skip)
next
  case (step_turn s quantum logs s')
  with turn_total[of s quantum] show ?case by auto
qed

lemma reachable_Inv: "reachable s \<Longrightarrow> Inv s"
  unfolding reachable_def
  by (induction rule: rtranclp_induct) (auto intro: Inv_init Inv_step)

lemma reachable_step: "reachable s \<Longrightarrow> step s s' \<Longrightarrow> reachable s'"
  unfolding reachable_def by (rule rtranclp.rtrancl_into_rtrancl)

lemma reachable_init: "reachable Scheduler_init"
  unfolding reachable_def by simp

lemma reachable_ex_created: "reachable ex_created"
  unfolding ex_created_def by (rule reachable_step[OF reachable_init step_create])

lemma enqueue_unknown:
  assumes "map_of (queues s) qid = Some q" "map_of (id_counter s) qid = Some c"
    "map_of (self_menu s) item_name = None"
  shows "enqueue s qid item_name =
           Inr ([ev_reject (time s) qid (mk_task_id qid (c + 1)) ''unknown_item''],
                [''Sorry, we don't serve that.''],
                s\<lparr>id_counter := AList.update qid (c + 1) (id_counter s)\<rparr>)"
  using assms by (simp add: enqueue_def Let_def)

lemma enqueue_full:
  assumes "map_of (queues s) qid = Some q" "map_of (id_counter s) qid = Some c"
    "map_of (self_menu s) item_name = Some burst" "int (length (data q)) \<ge> capacity q"
  shows "enqueue s qid item_name =
           Inr ([ev_reject (time s) qid (mk_task_id qid (c + 1)) ''full''],
                [''Sorry, we're at capacity.''],
                s\<lparr>id_counter := AList.update qid (c + 1) (id_counter s)\<rparr>)"
  using assms by (simp add: enqueue_def Let_def QueueRR_enqueue_def)

lemma enqueue_accept:
  assumes "map_of (queues s) qid = Some q" "map_of (id_counter s) qid = Some c"
    "map_of (self_menu s) item_name = Some burst" "int (length (data q)) < capacity q"
  shows "enqueue s qid item_name =
           Inr ([ev_enqueue (time s) qid (mk_task_id qid (c + 1)) burst], [],
                s\<lparr>id_counter := AList.update qid (c + 1) (id_counter s),
                  queues := AList.update qid
                    (q\<lparr>data := data q @ [\<lparr>task_id = mk_task_id qid (c + 1), remaining = burst\<rparr>]\<rparr>)
                    (queues s)\<rparr>)"
  using assms by (simp add: enqueue_def Let_def QueueRR_enqueue_def)

lemma Inv_menu: "Inv s \<Longrightarrow> self_menu s = REQUIRED_MENU"
  by (simp add: Inv_def)

section \<open>Invalid step bounds\<close>

text \<open>
  Claim C6. With at least one queue registered, \<open>run(quantum, steps)\<close> with
  \<open>steps < 1\<close> or \<open>steps > n\<close> returns exactly one log line, the
  \<open>error\<close> event with reason \<open>invalid_steps\<close>, runs no turn
  (\<open>turns_done\<close> is 0) and returns the scheduler as it was.
\<close>

theorem C6_invalid_steps:
  assumes "queue_order s \<noteq> []"
    and "steps < 1 \<or> steps > int (length (queue_order s))"
  shows "run s quantum (Some steps) = Inr ([ev_error (time s)], s) \<and>
         run_full s quantum (Some steps) = Inr ([ev_error (time s)], 0, s)"
  using assms by (simp add: run_def run_full_def Let_def)

theorem C6_invalid_steps_witness:
  "run ex_created 1 (Some 2) = Inr ([''time=0 event=error reason=invalid_steps''], ex_created) \<and>
   run_full ex_created 1 (Some 2) =
     Inr ([''time=0 event=error reason=invalid_steps''], 0, ex_created)"
proof -
  have a: "queue_order ex_created \<noteq> []" by code_simp
  have b: "(2::int) < 1 \<or> 2 > int (length (queue_order ex_created))" by code_simp
  have c: "ev_error (time ex_created) = ''time=0 event=error reason=invalid_steps''"
    by code_simp
  from C6_invalid_steps[OF a b, of 1] c show ?thesis by simp
qed

section \<open>Task-id counters\<close>

text \<open>
  Claim C1. In a reachable scheduler, \<open>enqueue\<close> on a registered queue sets that
  queue's counter to its old value plus 1 and leaves the other counters alone, and the
  one log line it returns (reject/unknown_item, reject/full or enqueue) carries the task
  id made from the new counter value; on acceptance the task stored at the tail has that
  id. On an unregistered queue it returns no log line and the scheduler as it was.
\<close>

theorem C1_enqueue_counter:
  assumes "reachable s"
  shows "(\<forall>q. map_of (queues s) qid = Some q \<longrightarrow>
            (\<exists>c out s'. map_of (id_counter s) qid = Some c \<and>
               id_counter s' = AList.update qid (c + 1) (id_counter s) \<and>
               map_of (id_counter s') qid = Some (c + 1) \<and>
               (enqueue s qid item_name =
                  Inr ([ev_reject (time s) qid (mk_task_id qid (c + 1)) ''unknown_item''],
                       out, s') \<or>
                enqueue s qid item_name =
                  Inr ([ev_reject (time s) qid (mk_task_id qid (c + 1)) ''full''], out, s') \<or>
                (\<exists>burst. enqueue s qid item_name =
                   Inr ([ev_enqueue (time s) qid (mk_task_id qid (c + 1)) burst], out, s') \<and>
                   map_of (queues s') qid =
                     Some (q\<lparr>data := data q @
                       [\<lparr>task_id = mk_task_id qid (c + 1), remaining = burst\<rparr>]\<rparr>))))) \<and>
         (map_of (queues s) qid = None \<longrightarrow> enqueue s qid item_name = Inr ([], [], s))"
proof (intro conjI allI impI)
  fix q assume q: "map_of (queues s) qid = Some q"
  from assms have inv: "Inv s" by (rule reachable_Inv)
  from Inv_lookups(1)[OF inv q] obtain c where c: "map_of (id_counter s) qid = Some c" ..
  let ?s1 = "s\<lparr>id_counter := AList.update qid (c + 1) (id_counter s)\<rparr>"
  have u: "map_of (AList.update qid (c + 1) (id_counter s)) qid = Some (c + 1)"
    by (simp add: update_conv')
  show "\<exists>c out s'. map_of (id_counter s) qid = Some c \<and>
               id_counter s' = AList.update qid (c + 1) (id_counter s) \<and>
               map_of (id_counter s') qid = Some (c + 1) \<and>
               (enqueue s qid item_name =
                  Inr ([ev_reject (time s) qid (mk_task_id qid (c + 1)) ''unknown_item''],
                       out, s') \<or>
                enqueue s qid item_name =
                  Inr ([ev_reject (time s) qid (mk_task_id qid (c + 1)) ''full''], out, s') \<or>
                (\<exists>burst. enqueue s qid item_name =
                   Inr ([ev_enqueue (time s) qid (mk_task_id qid (c + 1)) burst], out, s') \<and>
                   map_of (queues s') qid =
                     Some (q\<lparr>data := data q @
                       [\<lparr>task_id = mk_task_id qid (c + 1), remaining = burst\<rparr>]\<rparr>)))"
  proof (cases "map_of (self_menu s) item_name")
    case None
    from enqueue_unknown[OF q c None] c u show ?thesis
      by (intro exI[of _ c] exI[of _ "[''Sorry, we don't serve that.'']"] exI[of _ ?s1]) simp
  next
    case (Some burst)
    show ?thesis
    proof (cases "int (length (data q)) \<ge> capacity q")
      case True
      from enqueue_full[OF q c Some True] c u show ?thesis
        by (intro exI[of _ c] exI[of _ "[''Sorry, we're at capacity.'']"] exI[of _ ?s1]) simp
    next
      case False
      then have lt: "int (length (data q)) < capacity q" by simp
      let ?q' = "q\<lparr>data := data q @ [\<lparr>task_id = mk_task_id qid (c + 1), remaining = burst\<rparr>]\<rparr>"
      let ?s2 = "?s1\<lparr>queues := AList.update qid ?q' (queues s)\<rparr>"
      have "map_of (queues ?s2) qid = Some ?q'" by (simp add: update_conv')
      with enqueue_accept[OF q c Some lt] c u show ?thesis
        by (intro exI[of _ c] exI[of _ "[]"] exI[of _ ?s2]) auto
    qed
  qed
next
  assume "map_of (queues s) qid = None"
  then show "enqueue s qid item_name = Inr ([], [], s)" by (simp add: enqueue_def)
qed

theorem C1_enqueue_counter_witness:
  "enqueue ex_created ''zz'' ''tea'' = Inr ([], [], ex_created) \<and>
   enqueue ex_created ''c1'' ''pizza'' =
     Inr ([''time=0 event=reject queue=c1 task=c1-001 reason=unknown_item''],
          [''Sorry, we don't serve that.''],
          ex_created\<lparr>id_counter := [(''c1'', 1)]\<rparr>)"
proof -
  have n: "map_of (queues ex_created) ''zz'' = None" by code_simp
  have e: "enqueue ex_created ''c1'' ''pizza'' =
     Inr ([''time=0 event=reject queue=c1 task=c1-001 reason=unknown_item''],
          [''Sorry, we don't serve that.''],
          ex_created\<lparr>id_counter := [(''c1'', 1)]\<rparr>)" by code_simp
  from C1_enqueue_counter[OF reachable_ex_created, of "''zz''" "''tea''"] n e
  show ?thesis by simp
qed

lemma enqueue_ex_created:
  "enqueue ex_created ''c1'' ''latte'' =
     Inr ([''time=0 event=enqueue queue=c1 task=c1-001 remaining=3''], [], ex_full)"
  by code_simp

lemma reachable_ex_full: "reachable ex_full"
  by (rule reachable_step[OF reachable_ex_created step_enqueue[OF enqueue_ex_created]])

lemma reachable_ex_negative: "reachable ex_negative"
  unfolding ex_negative_def by (rule reachable_step[OF reachable_init step_create])

section \<open>Rejected requests\<close>

text \<open>
  Claim C3, as stated, fails: a rejected \<open>enqueue\<close> on a registered queue does
  change the scheduler, since the queue's task-id counter has been incremented before
  the checks. Both rejections are shown on a concrete reachable scheduler.
\<close>

theorem C3_reject_changes_counter:
  "reachable ex_created \<and> map_of (queues ex_created) ''c1'' \<noteq> None \<and>
   map_of REQUIRED_MENU ''pizza'' = None \<and>
   enqueue ex_created ''c1'' ''pizza'' =
     Inr ([''time=0 event=reject queue=c1 task=c1-001 reason=unknown_item''],
          [''Sorry, we don't serve that.''],
          ex_created\<lparr>id_counter := [(''c1'', 1)]\<rparr>) \<and>
   ex_created\<lparr>id_counter := [(''c1'', 1)]\<rparr> \<noteq> ex_created \<and>
   reachable ex_full \<and>
   enqueue ex_full ''c1'' ''tea'' =
     Inr ([''time=0 event=reject queue=c1 task=c1-002 reason=full''],
          [''Sorry, we're at capacity.''],
          ex_full\<lparr>id_counter := [(''c1'', 2)]\<rparr>) \<and>
   ex_full\<lparr>id_counter := [(''c1'', 2)]\<rparr> \<noteq> ex_full"
proof -
  have a: "map_of (queues ex_created) ''c1'' \<noteq> None" by code_simp
  have b: "map_of REQUIRED_MENU ''pizza'' = None" by code_simp
  have c: "enqueue ex_created ''c1'' ''pizza'' =
     Inr ([''time=0 event=reject queue=c1 task=c1-001 reason=unknown_item''],
          [''Sorry, we don't serve that.''],
          ex_created\<lparr>id_counter := [(''c1'', 1)]\<rparr>)" by code_simp
  have d: "ex_created\<lparr>id_counter := [(''c1'', 1)]\<rparr> \<noteq> ex_created" by code_simp
  have e: "enqueue ex_full ''c1'' ''tea'' =
     Inr ([''time=0 event=reject queue=c1 task=c1-002 reason=full''],
          [''Sorry, we're at capacity.''],
          ex_full\<lparr>id_counter := [(''c1'', 2)]\<rparr>)" by code_simp
  have f: "ex_full\<lparr>id_counter := [(''c1'', 2)]\<rparr> \<noteq> ex_full" by code_simp
  from a b c d e f reachable_ex_created reachable_ex_full show ?thesis by blast
qed

text \<open>
  Claim C3, amended. In a reachable scheduler, a rejected \<open>enqueue\<close> on a
  registered queue (item not on the menu, or item on the menu and the queue at or over
  capacity) returns exactly the reject log line, prints exactly the advisory message, and
  changes nothing in the scheduler but that queue's task-id counter, which grows by 1.
\<close>

theorem C3_reject_only_counter:
  assumes "reachable s" and "map_of (queues s) qid = Some q"
  shows "\<exists>c. map_of (id_counter s) qid = Some c \<and>
           (map_of REQUIRED_MENU item_name = None \<longrightarrow>
              enqueue s qid item_name =
                Inr ([ev_reject (time s) qid (mk_task_id qid (c + 1)) ''unknown_item''],
                     [''Sorry, we don't serve that.''],
                     s\<lparr>id_counter := AList.update qid (c + 1) (id_counter s)\<rparr>)) \<and>
           (\<forall>burst. map_of REQUIRED_MENU item_name = Some burst \<and>
                QueueRR_len q \<ge> capacity q \<longrightarrow>
              enqueue s qid item_name =
                Inr ([ev_reject (time s) qid (mk_task_id qid (c + 1)) ''full''],
                     [''Sorry, we're at capacity.''],
                     s\<lparr>id_counter := AList.update qid (c + 1) (id_counter s)\<rparr>))"
proof -
  from assms(1) have inv: "Inv s" by (rule reachable_Inv)
  then have m: "self_menu s = REQUIRED_MENU" by (rule Inv_menu)
  from Inv_lookups(1)[OF inv assms(2)] obtain c where c: "map_of (id_counter s) qid = Some c" ..
  show ?thesis
    using c enqueue_unknown[OF assms(2) c, of item_name] enqueue_full[OF assms(2) c, of item_name]
    by (auto simp: m QueueRR_len_def)
qed

theorem C3_reject_only_counter_witness:
  "enqueue ex_full ''c1'' ''pizza'' =
     Inr ([''time=0 event=reject queue=c1 task=c1-002 reason=unknown_item''],
          [''Sorry, we don't serve that.''],
          ex_full\<lparr>id_counter := [(''c1'', 2)]\<rparr>) \<and>
   enqueue ex_full ''c1'' ''tea'' =
     Inr ([''time=0 event=reject queue=c1 task=c1-002 reason=full''],
          [''Sorry, we're at capacity.''],
          ex_full\<lparr>id_counter := [(''c1'', 2)]\<rparr>)"
proof -
  let ?q = "\<lparr>queue_id = ''c1'', capacity = 1,
              data = [\<lparr>task_id = ''c1-001'', remaining = 3\<rparr>]\<rparr>"
  have q: "map_of (queues ex_full) ''c1'' = Some ?q" by code_simp
  have c: "map_of (id_counter ex_full) ''c1'' = Some 1" by code_simp
  have m1: "map_of REQUIRED_MENU ''pizza'' = None" by code_simp
  have m2: "map_of REQUIRED_MENU ''tea'' = Some 1" by code_simp
  have l: "QueueRR_len ?q \<ge> capacity ?q" by code_simp
  have u: "AList.update ''c1'' (1 + 1) (id_counter ex_full) = [(''c1'', 2::int)]" by code_simp
  have e1: "ev_reject (time ex_full) ''c1'' (mk_task_id ''c1'' (1 + 1)) ''unknown_item'' =
     ''time=0 event=reject queue=c1 task=c1-002 reason=unknown_item''" by code_simp
  have e2: "ev_reject (time ex_full) ''c1'' (mk_task_id ''c1'' (1 + 1)) ''full'' =
     ''time=0 event=reject queue=c1 task=c1-002 reason=full''" by code_simp
  from C3_reject_only_counter[OF reachable_ex_full q, of "''pizza''"]
    C3_reject_only_counter[OF reachable_ex_full q, of "''tea''"] c m1 m2 l u e1 e2
  show ?thesis by auto
qed

section \<open>Capacity\<close>

text \<open>
  Claim C4, as stated, fails: \<open>create_queue\<close> accepts a negative capacity, and the
  empty queue it creates holds 0 tasks, more than its capacity.
\<close>

theorem C4_negative_capacity_exceeded:
  "reachable ex_negative \<and>
   map_of (queues ex_negative) ''c1'' = Some (QueueRR_init ''c1'' (- 1)) \<and>
   \<not> QueueRR_len (QueueRR_init ''c1'' (- 1)) \<le> capacity (QueueRR_init ''c1'' (- 1))"
proof -
  have a: "map_of (queues ex_negative) ''c1'' = Some (QueueRR_init ''c1'' (- 1))"
    by code_simp
  have b: "\<not> QueueRR_len (QueueRR_init ''c1'' (- 1)) \<le> capacity (QueueRR_init ''c1'' (- 1))"
    by code_simp
  from a b reachable_ex_negative show ?thesis by blast
qed

text \<open>
  Claim C4, amended. In every reachable scheduler, a queue whose capacity is not negative
  never holds more tasks than its capacity (and a queue of negative capacity holds none);
  and \<open>enqueue\<close> of a known item on a queue that holds capacity-many tasks returns the
  reject event with reason \<open>full\<close> and leaves the contents of every queue as they were.
\<close>

theorem C4_capacity_bound:
  assumes "reachable s" and "map_of (queues s) qid = Some q"
  shows "(0 \<le> capacity q \<longrightarrow> QueueRR_len q \<le> capacity q) \<and>
         (capacity q < 0 \<longrightarrow> data q = []) \<and>
         (\<forall>burst. map_of REQUIRED_MENU item_name = Some burst \<and>
              QueueRR_len q = capacity q \<longrightarrow>
            (\<exists>c out s'. map_of (id_counter s) qid = Some c \<and>
               enqueue s qid item_name =
                 Inr ([ev_reject (time s) qid (mk_task_id qid (c + 1)) ''full''], out, s') \<and>
               queues s' = queues s))"
proof -
  from assms(1) have inv: "Inv s" by (rule reachable_Inv)
  then have m: "self_menu s = REQUIRED_MENU" by (rule Inv_menu)
  from Inv_lookups[OF inv assms(2)] obtain c where c: "map_of (id_counter s) qid = Some c"
    and w: "within_capacity q" by blast
  from w have 1: "0 \<le> capacity q \<longrightarrow> QueueRR_len q \<le> capacity q"
    and 2: "capacity q < 0 \<longrightarrow> data q = []"
    by (auto simp: within_capacity_def QueueRR_len_def)
  have 3: "\<exists>c out s'. map_of (id_counter s) qid = Some c \<and>
               enqueue s qid item_name =
                 Inr ([ev_reject (time s) qid (mk_task_id qid (c + 1)) ''full''], out, s') \<and>
               queues s' = queues s"
    if "map_of REQUIRED_MENU item_name = Some burst" "QueueRR_len q = capacity q" for burst
  proof -
    from that m have b: "map_of (self_menu s) item_name = Some burst"
      and l: "int (length (data q)) \<ge> capacity q" by (simp_all add: QueueRR_len_def)
    from enqueue_full[OF assms(2) c b l] c show ?thesis by auto
  qed
  from 1 2 3 show ?thesis by blast
qed

theorem C4_capacity_bound_witness:
  "QueueRR_len \<lparr>queue_id = ''c1'', capacity = 1,
                 data = [\<lparr>task_id = ''c1-001'', remaining = 3\<rparr>]\<rparr> \<le> 1 \<and>
   (\<exists>out s'. enqueue ex_full ''c1'' ''tea'' =
      Inr ([''time=0 event=reject queue=c1 task=c1-002 reason=full''], out, s') \<and>
      queues s' = queues ex_full)"
proof -
  let ?q = "\<lparr>queue_id = ''c1'', capacity = 1,
              data = [\<lparr>task_id = ''c1-001'', remaining = 3\<rparr>]\<rparr>"
  have q: "map_of (queues ex_full) ''c1'' = Some ?q" by code_simp
  have c: "map_of (id_counter ex_full) ''c1'' = Some 1" by code_simp
  have m: "map_of REQUIRED_MENU ''tea'' = Some 1" by code_simp
  have l: "QueueRR_len ?q = capacity ?q" by code_simp
  have e: "ev_reject (time ex_full) ''c1'' (mk_task_id ''c1'' (1 + 1)) ''full'' =
     ''time=0 event=reject queue=c1 task=c1-002 reason=full''" by code_simp
  from C4_capacity_bound[OF reachable_ex_full q, of "''tea''"] c m l e
  show ?thesis by auto
qed

lemma reachable_ex_skip: "reachable ex_skip"
  unfolding ex_skip_def by (rule reachable_step[OF reachable_ex_full step_mark_skip])

lemma dequeued_has_room:
  assumes "Inv s" and "map_of (queues s) qid = Some q" and "data q = t # ts"
  shows "int (length ts) < capacity q"
  using Inv_lookups(3)[OF assms(1,2)] assms(3) by (simp add: within_capacity_def)


lemma keys_ok_display: "Inv s \<Longrightarrow> \<exists>dl. display s = Inr dl"
  using display_ok Inv_keys_ok by blast

lemma run_full_one:
  assumes "queue_order s \<noteq> []"
    and "turn quantum (int (length (queue_order s))) s = Inr (ls, s')"
  shows "run_full s quantum (Some 1) = Inr (ls, 1, s')"
proof -
  let ?n = "int (length (queue_order s))"
  from assms(1) have n: "?n \<noteq> 0" "\<not> 1 > ?n" by (simp_all add: Suc_leI)
  have "run_loop quantum (Some 1) ?n 1 0 [] s = Inr (ls, 1, s')"
    using assms(2) n by (simp add: run_loop.simps[of _ _ _ 1 0] run_loop.simps[of _ _ _ 1 1])
  with n show ?thesis by (simp add: run_full_def Let_def)
qed

section \<open>Skip turns\<close>

text \<open>
  Claim C5. In a reachable scheduler whose cursor is at a queue with its skip flag set,
  the turn returns the \<open>run\<close> event followed by the snapshot of the scheduler it
  leaves, and that scheduler differs from the old one only in the flag, now clear, and in
  the cursor, advanced by one modulo the number of queues: the time and every queue
  (with all its tasks) are as before. The turn counts: \<open>run\<close> with \<open>steps = 1\<close>
  is exactly this turn.
\<close>

theorem C5_skip_turn:
  assumes "reachable s"
    and "py_index (queue_order s) (rr_index s) = Inr qid"
    and "map_of (skip_flags s) qid = Some True"
    and "n = int (length (queue_order s))"
    and "s' = s\<lparr>skip_flags := AList.update qid False (skip_flags s),
                 rr_index := (rr_index s + 1) mod n\<rparr>"
  shows "\<exists>dl. display s' = Inr dl \<and>
           turn quantum n s = Inr (ev_run (time s) qid # dl, s') \<and>
           run_full s quantum (Some 1) = Inr (ev_run (time s) qid # dl, 1, s') \<and>
           time s' = time s \<and> queues s' = queues s \<and>
           map_of (skip_flags s') qid = Some False"
proof -
  from assms(1) have inv: "Inv s" by (rule reachable_Inv)
  from assms(2) have ne: "queue_order s \<noteq> []" by (auto simp: py_index_def split: if_splits)
  from assms(3) have "qid \<in> fst ` set (skip_flags s)" by (rule map_of_SomeD[THEN imageI, of _ _ _ fst, simplified])
  with inv have "qid \<in> fst ` set (queues s)" by (metis Inv_def keys_ok_def set_map)
  then obtain q where q: "map_of (queues s) qid = Some q"
    by (metis map_of_eq_None_iff not_Some_eq)
  from Inv_after_skip[OF inv ne assms(3)] have "Inv s'" by (simp add: assms(4,5))
  then obtain dl where d: "display s' = Inr dl" using keys_ok_display by blast
  from turn_skip[OF assms(2) q assms(3) d[unfolded assms(5)], of quantum]
  have t: "turn quantum n s = Inr (ev_run (time s) qid # dl, s')" by (simp add: assms(5))
  from run_full_one[OF ne t[unfolded assms(4)]]
  have r: "run_full s quantum (Some 1) = Inr (ev_run (time s) qid # dl, 1, s')" .
  have "map_of (skip_flags s') qid = Some False" by (simp add: assms(5) update_conv')
  with d t r show ?thesis by (simp add: assms(5))
qed


theorem C5_skip_turn_witness:
  "turn 1 1 ex_skip =
     Inr ([''time=0 event=run queue=c1'', ''display time=0 next=c1'',
           ''display menu=[americano:2,cappuccino:3,hot_chocolate:4,latte:3,macchiato:2,mocha:4,tea:1]'',
           ''display c1 [1/1] -> [c1-001:3]''],
          ex_skip\<lparr>skip_flags := [(''c1'', False)], rr_index := 0\<rparr>) \<and>
   time (ex_skip\<lparr>skip_flags := [(''c1'', False)], rr_index := 0\<rparr>) = time ex_skip \<and>
   queues (ex_skip\<lparr>skip_flags := [(''c1'', False)], rr_index := 0\<rparr>) = queues ex_skip"
proof -
  have p: "py_index (queue_order ex_skip) (rr_index ex_skip) = Inr ''c1''" by code_simp
  have f: "map_of (skip_flags ex_skip) ''c1'' = Some True" by code_simp
  have n: "(1::int) = int (length (queue_order ex_skip))" by code_simp
  have u: "ex_skip\<lparr>skip_flags := [(''c1'', False)], rr_index := 0\<rparr> =
           ex_skip\<lparr>skip_flags := AList.update ''c1'' False (skip_flags ex_skip),
                   rr_index := (rr_index ex_skip + 1) mod 1\<rparr>" by code_simp
  have e: "ev_run (time ex_skip) ''c1'' = ''time=0 event=run queue=c1''" by code_simp
  have d: "display (ex_skip\<lparr>skip_flags := [(''c1'', False)], rr_index := 0\<rparr>) =
     Inr [''display time=0 next=c1'',
          ''display menu=[americano:2,cappuccino:3,hot_chocolate:4,latte:3,macchiato:2,mocha:4,tea:1]'',
          ''display c1 [1/1] -> [c1-001:3]'']" by code_simp
  from C5_skip_turn[OF reachable_ex_skip p f n u, of 1] e d show ?thesis by auto
qed

section \<open>Work turns\<close>

text \<open>
  Claim C2. In a reachable scheduler whose cursor is at a queue with a clear skip flag
  and head task \<open>t\<close>, with \<open>serviced = min(t.remaining, quantum)\<close>: the turn takes
  \<open>t\<close> off the head and adds \<open>serviced\<close> to the time. If \<open>t.remaining - serviced > 0\<close>
  the task, with that remaining value, is stored at the tail of the same queue and the
  log is the \<open>run\<close> event, the \<open>work\<close> event with the new remaining value and the
  snapshot; otherwise the queue keeps only the other tasks and the log is the \<open>run\<close>
  event, the \<open>finish\<close> event and the snapshot. Nothing else changes but the cursor.
\<close>

theorem C2_work_turn:
  assumes "reachable s"
    and "py_index (queue_order s) (rr_index s) = Inr qid"
    and "map_of (queues s) qid = Some q"
    and "map_of (skip_flags s) qid = Some False"
    and "data q = t # ts"
    and "min (remaining t) quantum = serviced"
    and "n = int (length (queue_order s))"
  shows "(remaining t - serviced > 0 \<longrightarrow>
           (\<exists>dl. turn quantum n s =
              Inr (ev_run (time s) qid
                     # ev_work (time s + serviced) qid (task_id t) (remaining t - serviced)
                     # dl,
                   s\<lparr>time := time s + serviced,
                     queues := AList.update qid
                       (q\<lparr>data := ts @ [t\<lparr>remaining := remaining t - serviced\<rparr>]\<rparr>) (queues s),
                     rr_index := (rr_index s + 1) mod n\<rparr>) \<and>
              display (s\<lparr>time := time s + serviced,
                     queues := AList.update qid
                       (q\<lparr>data := ts @ [t\<lparr>remaining := remaining t - serviced\<rparr>]\<rparr>) (queues s),
                     rr_index := (rr_index s + 1) mod n\<rparr>) = Inr dl)) \<and>
         (remaining t - serviced \<le> 0 \<longrightarrow>
           (\<exists>dl. turn quantum n s =
              Inr (ev_run (time s) qid # ev_finish (time s + serviced) qid (task_id t) # dl,
                   s\<lparr>time := time s + serviced,
                     queues := AList.update qid (q\<lparr>data := ts\<rparr>) (queues s),
                     rr_index := (rr_index s + 1) mod n\<rparr>) \<and>
              display (s\<lparr>time := time s + serviced,
                     queues := AList.update qid (q\<lparr>data := ts\<rparr>) (queues s),
                     rr_index := (rr_index s + 1) mod n\<rparr>) = Inr dl))"
proof (intro conjI impI)
  from assms(1) have inv: "Inv s" by (rule reachable_Inv)
  from assms(2) have ne: "queue_order s \<noteq> []" by (auto simp: py_index_def split: if_splits)
  from Inv_lookups(3)[OF inv assms(3)] assms(5) have w1: "within_capacity (q\<lparr>data := ts\<rparr>)"
    by (simp add: within_capacity_def)
  let ?t' = "t\<lparr>remaining := remaining t - serviced\<rparr>"
  have room: "int (length ts) < capacity q" using dequeued_has_room[OF inv assms(3,5)] .
  then have enq: "snd (QueueRR_enqueue (q\<lparr>data := ts\<rparr>) ?t') = q\<lparr>data := ts @ [?t']\<rparr>"
    by (simp add: QueueRR_enqueue_def)
  {
    assume pos: "remaining t - serviced > 0"
    let ?s' = "s\<lparr>time := time s + serviced,
                 queues := AList.update qid (q\<lparr>data := ts @ [?t']\<rparr>) (queues s),
                 rr_index := (rr_index s + 1) mod n\<rparr>"
    from room have "within_capacity (q\<lparr>data := ts @ [?t']\<rparr>)"
      by (simp add: within_capacity_def)
    from Inv_after_work[OF inv ne assms(3) this] have "Inv ?s'" by (simp add: assms(7))
    then obtain dl where d: "display ?s' = Inr dl" using keys_ok_display by blast
    from turn_work[OF assms(2,3,4,5,6) pos, of n dl] d enq
    have "turn quantum n s =
            Inr (ev_run (time s) qid
                   # ev_work (time s + serviced) qid (task_id t) (remaining t - serviced) # dl,
                 ?s')" by simp
    with d show "\<exists>dl. turn quantum n s =
            Inr (ev_run (time s) qid
                   # ev_work (time s + serviced) qid (task_id t) (remaining t - serviced) # dl,
                 ?s') \<and> display ?s' = Inr dl" by blast
  }
  {
    assume le: "remaining t - serviced \<le> 0"
    then have npos: "\<not> remaining t - serviced > 0" by simp
    let ?s' = "s\<lparr>time := time s + serviced,
                 queues := AList.update qid (q\<lparr>data := ts\<rparr>) (queues s),
                 rr_index := (rr_index s + 1) mod n\<rparr>"
    from Inv_after_work[OF inv ne assms(3) w1] have "Inv ?s'" by (simp add: assms(7))
    then obtain dl where d: "display ?s' = Inr dl" using keys_ok_display by blast
    from turn_finish[OF assms(2,3,4,5,6) npos d]
    have "turn quantum n s =
            Inr (ev_run (time s) qid # ev_finish (time s + serviced) qid (task_id t) # dl, ?s')" .
    with d show "\<exists>dl. turn quantum n s =
            Inr (ev_run (time s) qid # ev_finish (time s + serviced) qid (task_id t) # dl, ?s')
            \<and> display ?s' = Inr dl" by blast
  }
qed

theorem C2_work_turn_witness:
  "turn 1 1 ex_full =
     Inr ([''time=0 event=run queue=c1'',
           ''time=1 event=work queue=c1 task=c1-001 remaining=2'',
           ''display time=1 next=c1'',
           ''display menu=[americano:2,cappuccino:3,hot_chocolate:4,latte:3,macchiato:2,mocha:4,tea:1]'',
           ''display c1 [1/1] -> [c1-001:2]''],
          ex_full\<lparr>time := 1,
            queues := [(''c1'', \<lparr>queue_id = ''c1'', capacity = 1,
                                data = [\<lparr>task_id = ''c1-001'', remaining = 2\<rparr>]\<rparr>)],
            rr_index := 0\<rparr>) \<and>
   turn 5 1 ex_full =
     Inr ([''time=0 event=run queue=c1'',
           ''time=3 event=finish queue=c1 task=c1-001'',
           ''display time=3 next=c1'',
           ''display menu=[americano:2,cappuccino:3,hot_chocolate:4,latte:3,macchiato:2,mocha:4,tea:1]'',
           ''display c1 [0/1] -> []''],
          ex_full\<lparr>time := 3,
            queues := [(''c1'', \<lparr>queue_id = ''c1'', capacity = 1, data = []\<rparr>)],
            rr_index := 0\<rparr>)"
proof -
  let ?t = "\<lparr>task_id = ''c1-001'', remaining = 3\<rparr>"
  let ?q = "\<lparr>queue_id = ''c1'', capacity = 1, data = [?t]\<rparr>"
  let ?sw = "ex_full\<lparr>time := 1,
            queues := [(''c1'', \<lparr>queue_id = ''c1'', capacity = 1,
                                data = [\<lparr>task_id = ''c1-001'', remaining = 2\<rparr>]\<rparr>)],
            rr_index := 0\<rparr>"
  let ?sf = "ex_full\<lparr>time := 3,
            queues := [(''c1'', \<lparr>queue_id = ''c1'', capacity = 1, data = []\<rparr>)],
            rr_index := 0\<rparr>"
  have p: "py_index (queue_order ex_full) (rr_index ex_full) = Inr ''c1''" by code_simp
  have q: "map_of (queues ex_full) ''c1'' = Some ?q" by code_simp
  have f: "map_of (skip_flags ex_full) ''c1'' = Some False" by code_simp
  have d: "data ?q = ?t # []" by simp
  have m1: "min (remaining ?t) 1 = 1" by simp
  have m5: "min (remaining ?t) 5 = 3" by simp
  have n: "(1::int) = int (length (queue_order ex_full))" by code_simp
  have sw: "ex_full\<lparr>time := time ex_full + 1,
              queues := AList.update ''c1'' (?q\<lparr>data := [] @ [?t\<lparr>remaining := remaining ?t - 1\<rparr>]\<rparr>)
                          (queues ex_full),
              rr_index := (rr_index ex_full + 1) mod 1\<rparr> = ?sw" by code_simp
  have sf: "ex_full\<lparr>time := time ex_full + 3,
              queues := AList.update ''c1'' (?q\<lparr>data := []\<rparr>) (queues ex_full),
              rr_index := (rr_index ex_full + 1) mod 1\<rparr> = ?sf" by code_simp
  have e: "ev_run (time ex_full) ''c1'' = ''time=0 event=run queue=c1''"
    "ev_work (time ex_full + 1) ''c1'' (task_id ?t) (remaining ?t - 1) =
       ''time=1 event=work queue=c1 task=c1-001 remaining=2''"
    "ev_finish (time ex_full + 3) ''c1'' (task_id ?t) =
       ''time=3 event=finish queue=c1 task=c1-001''" by code_simp+
  have dw: "display ?sw =
     Inr [''display time=1 next=c1'',
          ''display menu=[americano:2,cappuccino:3,hot_chocolate:4,latte:3,macchiato:2,mocha:4,tea:1]'',
          ''display c1 [1/1] -> [c1-001:2]'']" by code_simp
  have df: "display ?sf =
     Inr [''display time=3 next=c1'',
          ''display menu=[americano:2,cappuccino:3,hot_chocolate:4,latte:3,macchiato:2,mocha:4,tea:1]'',
          ''display c1 [0/1] -> []'']" by code_simp
  have pos: "remaining ?t - 1 > 0" and le: "remaining ?t - 3 \<le> 0" by simp_all
  from C2_work_turn[OF reachable_ex_full p q f d m1 n, THEN conjunct1, rule_format, OF pos]
  have w: "turn 1 1 ex_full = Inr ([''time=0 event=run queue=c1'',
           ''time=1 event=work queue=c1 task=c1-001 remaining=2'',
           ''display time=1 next=c1'',
           ''display menu=[americano:2,cappuccino:3,hot_chocolate:4,latte:3,macchiato:2,mocha:4,tea:1]'',
           ''display c1 [1/1] -> [c1-001:2]''], ?sw)"
    unfolding sw e using dw by auto
  from C2_work_turn[OF reachable_ex_full p q f d m5 n, THEN conjunct2, rule_format, OF le]
  have fi: "turn 5 1 ex_full = Inr ([''time=0 event=run queue=c1'',
           ''time=3 event=finish queue=c1 task=c1-001'',
           ''display time=3 next=c1'',
           ''display menu=[americano:2,cappuccino:3,hot_chocolate:4,latte:3,macchiato:2,mocha:4,tea:1]'',
           ''display c1 [0/1] -> []''], ?sf)"
    unfolding sf e using df by auto
  from w fi show ?thesis by (rule conjI)
qed

section \<open>Re-insertion of a preempted task\<close>

text \<open>
  Claim C8. In a reachable scheduler, on a work turn that leaves the head task
  unfinished, the queue once its head is dequeued holds fewer tasks than its capacity,
  so the call of \<open>QueueRR.enqueue\<close> whose result \<open>run\<close> ignores returns \<open>True\<close> and
  appends the task: after the turn the task is at the tail of its queue.
\<close>

theorem C8_reinsert_succeeds:
  assumes "reachable s"
    and "py_index (queue_order s) (rr_index s) = Inr qid"
    and "map_of (queues s) qid = Some q"
    and "map_of (skip_flags s) qid = Some False"
    and "data q = t # ts"
    and "min (remaining t) quantum = serviced"
    and "remaining t - serviced > 0"
    and "t' = t\<lparr>remaining := remaining t - serviced\<rparr>"
  shows "QueueRR_dequeue q = (Some t, q\<lparr>data := ts\<rparr>) \<and>
         QueueRR_len (q\<lparr>data := ts\<rparr>) < capacity (q\<lparr>data := ts\<rparr>) \<and>
         QueueRR_enqueue (q\<lparr>data := ts\<rparr>) t' = (True, q\<lparr>data := ts @ [t']\<rparr>) \<and>
         (\<exists>logs s'. turn quantum (int (length (queue_order s))) s = Inr (logs, s') \<and>
            map_of (queues s') qid = Some (q\<lparr>data := ts @ [t']\<rparr>))"
proof -
  from assms(1) have inv: "Inv s" by (rule reachable_Inv)
  from assms(2) have ne: "queue_order s \<noteq> []" by (auto simp: py_index_def split: if_splits)
  have room: "int (length ts) < capacity q" using dequeued_has_room[OF inv assms(3,5)] .
  then have enq: "QueueRR_enqueue (q\<lparr>data := ts\<rparr>) t' = (True, q\<lparr>data := ts @ [t']\<rparr>)"
    by (simp add: QueueRR_enqueue_def)
  have deq: "QueueRR_dequeue q = (Some t, q\<lparr>data := ts\<rparr>)"
    using assms(5) by (simp add: QueueRR_dequeue_def)
  let ?n = "int (length (queue_order s))"
  let ?s' = "s\<lparr>time := time s + serviced,
               queues := AList.update qid (q\<lparr>data := ts @ [t']\<rparr>) (queues s),
               rr_index := (rr_index s + 1) mod ?n\<rparr>"
  from room have "within_capacity (q\<lparr>data := ts @ [t']\<rparr>)"
    by (simp add: within_capacity_def)
  from Inv_after_work[OF inv ne assms(3) this] have "Inv ?s'" .
  then obtain dl where d: "display ?s' = Inr dl" using keys_ok_display by blast
  from turn_work[OF assms(2,3,4,5,6,7), of ?n dl] d enq
  have "turn quantum ?n s =
          Inr (ev_run (time s) qid
                 # ev_work (time s + serviced) qid (task_id t) (remaining t - serviced) # dl,
               ?s')" by (simp add: assms(8))
  moreover have "map_of (queues ?s') qid = Some (q\<lparr>data := ts @ [t']\<rparr>)"
    by (simp add: update_conv')
  ultimately have "\<exists>logs s'. turn quantum ?n s = Inr (logs, s') \<and>
            map_of (queues s') qid = Some (q\<lparr>data := ts @ [t']\<rparr>)" by blast
  with deq enq room show ?thesis by (simp add: QueueRR_len_def)
qed

theorem C8_reinsert_succeeds_witness:
  "QueueRR_enqueue \<lparr>queue_id = ''c1'', capacity = 1, data = []\<rparr>
     \<lparr>task_id = ''c1-001'', remaining = 2\<rparr> =
     (True, \<lparr>queue_id = ''c1'', capacity = 1,
             data = [\<lparr>task_id = ''c1-001'', remaining = 2\<rparr>]\<rparr>) \<and>
   (\<exists>logs s'. turn 1 1 ex_full = Inr (logs, s') \<and>
      map_of (queues s') ''c1'' =
        Some \<lparr>queue_id = ''c1'', capacity = 1,
              data = [\<lparr>task_id = ''c1-001'', remaining = 2\<rparr>]\<rparr>)"
proof -
  let ?t = "\<lparr>task_id = ''c1-001'', remaining = 3\<rparr>"
  let ?q = "\<lparr>queue_id = ''c1'', capacity = 1, data = [?t]\<rparr>"
  have p: "py_index (queue_order ex_full) (rr_index ex_full) = Inr ''c1''" by code_simp
  have q: "map_of (queues ex_full) ''c1'' = Some ?q" by code_simp
  have f: "map_of (skip_flags ex_full) ''c1'' = Some False" by code_simp
  have d: "data ?q = ?t # []" by simp
  have m: "min (remaining ?t) 1 = 1" by simp
  have pos: "remaining ?t - 1 > 0" by simp
  have n: "int (length (queue_order ex_full)) = 1" by code_simp
  from C8_reinsert_succeeds[OF reachable_ex_full p q f d m pos refl]
  show ?thesis by (simp add: n)
qed

section \<open>Skip marks\<close>



lemma capacity_create:
  "map_of (queues s) qid = Some q \<Longrightarrow>
   map_of (queues (snd (create_queue s k cap))) qid = Some q"
  by (auto simp: create_queue_def update_conv')

lemma capacity_enqueue:
  assumes "enqueue s k item_name = Inr (logs, out, s')" "map_of (queues s) qid = Some q"
  shows "\<exists>q'. map_of (queues s') qid = Some q' \<and> capacity q' = capacity q"
  using assms
  by (auto simp: enqueue_def Let_def QueueRR_enqueue_def update_conv'
      split: option.splits if_splits)

lemma capacity_mark_skip:
  "map_of (queues s) qid = Some q \<Longrightarrow> map_of (queues (snd (mark_skip s k))) qid = Some q"
  by (simp add: mark_skip_def)

lemma capacity_turn:
  assumes "turn quantum n s = Inr (logs, s')" "map_of (queues s) qid = Some q"
  shows "\<exists>q'. map_of (queues s') qid = Some q' \<and> capacity q' = capacity q"
  using assms
  by (auto simp: turn_def Let_def QueueRR_enqueue_def QueueRR_dequeue_def update_conv'
      split: option.splits if_splits sum.splits list.splits)

lemma capacity_step:
  assumes "step s s'" "map_of (queues s) qid = Some q"
  shows "\<exists>q'. map_of (queues s') qid = Some q' \<and> capacity q' = capacity q"
  using assms
proof (induction rule: step.induct)
  case (step_create s k cap)
  then show ?case using capacity_create by blast
next
  case (step_enqueue s k item_name logs out s')
  then show ?case using capacity_enqueue by blast
next
  case (step_mark_skip s k)
  then show ?case using capacity_mark_skip by blast
next
  case (step_turn s quantum logs s')
  then show ?case using capacity_turn by blast
qed

lemma capacity_steps:
  assumes "rtranclp step s s'" "map_of (queues s) qid = Some q"
  shows "\<exists>q'. map_of (queues s') qid = Some q' \<and> capacity q' = capacity q"
  using assms
proof (induction rule: rtranclp_induct)
  case base
  then show ?case by simp
next
  case (step y z)
  then obtain qy where "map_of (queues y) qid = Some qy" "capacity qy = capacity q" by blast
  with capacity_step[OF step.hyps(2), of qid qy] show ?case by auto
qed

lemma reachable_steps: "reachable s \<Longrightarrow> rtranclp step s s' \<Longrightarrow> reachable s'"
  unfolding reachable_def by (rule rtranclp_trans)

section \<open>Queues created without room\<close>

text \<open>
  Claim C9. \<open>create_queue\<close> checks nothing about the capacity: for an unregistered id
  and any integer capacity it returns the \<open>create\<close> event and registers an empty queue
  of that capacity, with counter 0 and a clear flag. When the capacity is 0 or negative,
  then in every scheduler reached from there \<open>enqueue\<close> of an item on the menu into that
  queue is rejected with reason \<open>full\<close>, and the queue's counter still grows by 1.
\<close>

theorem C9_no_capacity_validation:
  assumes "reachable s" and "map_of (queues s) qid = None"
    and "s0 = snd (create_queue s qid cap)"
  shows "create_queue s qid cap = ([ev_create (time s) qid], s0) \<and>
         map_of (queues s0) qid = Some \<lparr>queue_id = qid, capacity = cap, data = []\<rparr> \<and>
         queue_order s0 = queue_order s @ [qid] \<and>
         map_of (id_counter s0) qid = Some 0 \<and>
         map_of (skip_flags s0) qid = Some False \<and>
         (\<forall>s1 burst. cap \<le> 0 \<and> rtranclp step s0 s1 \<and>
              map_of REQUIRED_MENU item_name = Some burst \<longrightarrow>
            (\<exists>c. map_of (id_counter s1) qid = Some c \<and>
               enqueue s1 qid item_name =
                 Inr ([ev_reject (time s1) qid (mk_task_id qid (c + 1)) ''full''],
                      [''Sorry, we're at capacity.''],
                      s1\<lparr>id_counter := AList.update qid (c + 1) (id_counter s1)\<rparr>)))"
proof -
  have q0: "map_of (queues s0) qid = Some \<lparr>queue_id = qid, capacity = cap, data = []\<rparr>"
    using assms(2) by (simp add: assms(3) create_queue_def update_conv' QueueRR_init_def)
  have r0: "reachable s0"
    unfolding assms(3) by (rule reachable_step[OF assms(1) step_create])
  have late: "\<exists>c. map_of (id_counter s1) qid = Some c \<and>
               enqueue s1 qid item_name =
                 Inr ([ev_reject (time s1) qid (mk_task_id qid (c + 1)) ''full''],
                      [''Sorry, we're at capacity.''],
                      s1\<lparr>id_counter := AList.update qid (c + 1) (id_counter s1)\<rparr>)"
    if "cap \<le> 0" "rtranclp step s0 s1" "map_of REQUIRED_MENU item_name = Some burst"
    for s1 burst
  proof -
    from capacity_steps[OF that(2) q0] obtain q1 where
      q1: "map_of (queues s1) qid = Some q1" and "capacity q1 = cap" by auto
    with that(1) have full: "int (length (data q1)) \<ge> capacity q1" by simp
    from reachable_steps[OF r0 that(2)] have inv: "Inv s1" by (rule reachable_Inv)
    from Inv_lookups(1)[OF inv q1] obtain c where c: "map_of (id_counter s1) qid = Some c" ..
    from that(3) Inv_menu[OF inv] have "map_of (self_menu s1) item_name = Some burst" by simp
    from enqueue_full[OF q1 c this full] c show ?thesis by blast
  qed
  from assms(2) q0 late show ?thesis
    by (simp add: assms(3) create_queue_def update_conv')
qed

theorem C9_no_capacity_validation_witness:
  "create_queue Scheduler_init ''c1'' (- 1) = ([''time=0 event=create queue=c1''], ex_negative) \<and>
   map_of (queues ex_negative) ''c1'' = Some \<lparr>queue_id = ''c1'', capacity = - 1, data = []\<rparr> \<and>
   enqueue ex_negative ''c1'' ''tea'' =
     Inr ([''time=0 event=reject queue=c1 task=c1-001 reason=full''],
          [''Sorry, we're at capacity.''],
          ex_negative\<lparr>id_counter := [(''c1'', 1)]\<rparr>)"
proof -
  have n: "map_of (queues Scheduler_init) ''c1'' = None" by code_simp
  have m: "map_of REQUIRED_MENU ''tea'' = Some 1" by code_simp
  have c: "map_of (id_counter ex_negative) ''c1'' = Some 0" by code_simp
  have e: "ev_create (time Scheduler_init) ''c1'' = ''time=0 event=create queue=c1''"
    "ev_reject (time ex_negative) ''c1'' (mk_task_id ''c1'' (0 + 1)) ''full'' =
       ''time=0 event=reject queue=c1 task=c1-001 reason=full''" by code_simp+
  have u: "AList.update ''c1'' (0 + 1) (id_counter ex_negative) = [(''c1'', 1::int)]"
    by code_simp
  have le: "(- 1::int) \<le> 0" by simp
  have rr: "rtranclp step ex_negative ex_negative" by simp
  note t = C9_no_capacity_validation[OF reachable_init n ex_negative_def, of "''tea''"]
  from t have 1: "create_queue Scheduler_init ''c1'' (- 1) =
      ([''time=0 event=create queue=c1''], ex_negative)" unfolding e by blast
  from t have 2: "map_of (queues ex_negative) ''c1'' =
      Some \<lparr>queue_id = ''c1'', capacity = - 1, data = []\<rparr>" by blast
  from t have "\<exists>c. map_of (id_counter ex_negative) ''c1'' = Some c \<and>
               enqueue ex_negative ''c1'' ''tea'' =
                 Inr ([ev_reject (time ex_negative) ''c1'' (mk_task_id ''c1'' (c + 1)) ''full''],
                      [''Sorry, we're at capacity.''],
                      ex_negative\<lparr>id_counter := AList.update ''c1'' (c + 1) (id_counter ex_negative)\<rparr>)"
    using m le rr by blast
  with c have 3: "enqueue ex_negative ''c1'' ''tea'' =
     Inr ([''time=0 event=reject queue=c1 task=c1-001 reason=full''],
          [''Sorry, we're at capacity.''],
          ex_negative\<lparr>id_counter := [(''c1'', 1)]\<rparr>)" unfolding e[symmetric] u[symmetric] by auto
  from 1 2 3 show ?thesis by blast
qed

lemma run_loop_unbounded:
  assumes "Inv s" and "queue_order s \<noteq> []" and "n = int (length (queue_order s))"
    and "td < turns"
  shows "\<exists>logs' k s'.
           run_loop quantum None n turns td logs s = Inr (logs', td + int k, s') \<and>
           1 \<le> k \<and> td + int k \<le> turns \<and>
           after_turns quantum n k s = Inr s' \<and>
           (td + int k < turns \<longrightarrow> drained s') \<and>
           (\<forall>j. 1 \<le> j \<and> j < k \<longrightarrow>
              (\<exists>sj. after_turns quantum n j s = Inr sj \<and> \<not> drained sj))"
  using assms
proof (induction "nat (turns - td)" arbitrary: td logs s)
  case 0
  then show ?case by simp
next
  case (Suc m)
  from Suc.prems(2) Suc.prems(3) have n0: "n \<noteq> 0" by simp
  from turn_total[OF Suc.prems(1,2), of quantum] Suc.prems(3) obtain ls s1 where
    t: "turn quantum n s = Inr (ls, s1)" and i1: "Inv s1"
    and o1: "queue_order s1 = queue_order s" by auto
  have a1: "after_turns quantum n 1 s = Inr s1" using t by simp
  show ?case
  proof (cases "drained s1 \<or> \<not> td + 1 < turns")
    case True
    with t n0 Suc.prems(4)
    have "run_loop quantum None n turns td logs s = Inr (logs @ ls, td + int 1, s1)"
      by (auto simp: run_loop.simps[of _ _ _ turns td] run_loop.simps[of _ _ _ turns "td + 1"]
          drained_def)
    moreover from Suc.prems(4) have "td + int 1 \<le> turns" by simp
    moreover from True have "td + int 1 < turns \<longrightarrow> drained s1" by auto
    ultimately show ?thesis using a1 by (intro exI[of _ "logs @ ls"] exI[of _ 1] exI[of _ s1]) auto
  next
    case False
    then have nd: "\<not> drained s1" and lt: "td + 1 < turns" by auto
    from Suc.hyps(2) have m: "m = nat (turns - (td + 1))" by simp
    from Suc.hyps(1)[OF m i1, of "logs @ ls"] Suc.prems(2,3) o1 lt
    obtain logs' k s' where
      r: "run_loop quantum None n turns (td + 1) (logs @ ls) s1 = Inr (logs', td + 1 + int k, s')"
      and k1: "1 \<le> k" and kb: "td + 1 + int k \<le> turns"
      and at: "after_turns quantum n k s1 = Inr s'"
      and dr: "td + 1 + int k < turns \<longrightarrow> drained s'"
      and ea: "\<forall>j. 1 \<le> j \<and> j < k \<longrightarrow>
              (\<exists>sj. after_turns quantum n j s1 = Inr sj \<and> \<not> drained sj)"
      by auto
    from t n0 Suc.prems(4) nd
    have "run_loop quantum None n turns td logs s =
            run_loop quantum None n turns (td + 1) (logs @ ls) s1"
      by (auto simp: run_loop.simps[of _ _ _ turns td] drained_def)
    with r have 1: "run_loop quantum None n turns td logs s = Inr (logs', td + int (Suc k), s')"
      by simp
    from at t have 2: "after_turns quantum n (Suc k) s = Inr s'" by simp
    have 3: "\<exists>sj. after_turns quantum n j s = Inr sj \<and> \<not> drained sj"
      if "1 \<le> j" "j < Suc k" for j
    proof (cases j)
      case 0
      with that show ?thesis by simp
    next
      case (Suc j')
      show ?thesis
      proof (cases j')
        case 0
        with Suc a1 nd show ?thesis by simp
      next
        case (Suc j'')
        with \<open>j = Suc j'\<close> that ea have "\<exists>sj. after_turns quantum n j' s1 = Inr sj \<and> \<not> drained sj"
          by auto
        with \<open>j = Suc j'\<close> t show ?thesis by simp
      qed
    qed
    from 1 2 3 kb dr show ?thesis
      by (intro exI[of _ logs'] exI[of _ "Suc k"] exI[of _ s']) auto
  qed
qed

lemma reachable_ex_pending: "reachable ex_pending"
  unfolding ex_pending_def
  by (rule reachable_step[OF reachable_step[OF reachable_ex_created step_create] step_mark_skip])

text \<open>No queue id is registered twice.\<close>

lemma order_enqueue:
  "enqueue s qid item_name = Inr (logs, out, s') \<Longrightarrow> queue_order s' = queue_order s"
  by (auto simp: enqueue_def Let_def QueueRR_enqueue_def split: option.splits if_splits)

lemma distinct_step:
  assumes "step s s'" and "Inv s" and "distinct (queue_order s)"
  shows "distinct (queue_order s')"
  using assms
proof (induction rule: step.induct)
  case (step_create s qid cap)
  show ?case
  proof (cases "map_of (queues s) qid")
    case None
    then have "qid \<notin> fst ` set (queues s)" by (simp add: map_of_eq_None_iff)
    with step_create.prems(1) have "qid \<notin> set (queue_order s)"
      by (metis Inv_def keys_ok_def set_map)
    with None step_create.prems(2) show ?thesis by (simp add: create_queue_def)
  next
    case (Some q)
    with step_create.prems(2) show ?thesis by (simp add: create_queue_def)
  qed
next
  case (step_enqueue s qid item_name logs out s')
  then show ?case by (simp add: order_enqueue)
next
  case (step_mark_skip s qid)
  then show ?case by (simp add: mark_skip_def)
next
  case (step_turn s quantum logs s')
  with turn_total[of s quantum] show ?case by auto
qed

lemma reachable_distinct: "reachable s \<Longrightarrow> distinct (queue_order s)"
  unfolding reachable_def
proof (induction rule: rtranclp_induct)
  case base
  show ?case by (simp add: Scheduler_init_def)
next
  case (step y z)
  from step.hyps(1) have "Inv y" using reachable_Inv reachable_def by simp
  from distinct_step[OF step.hyps(2) this step.IH] show ?case .
qed

lemma after_turns_Inv:
  assumes "Inv s" and "queue_order s \<noteq> []" and "n = int (length (queue_order s))"
    and "after_turns quantum n j s = Inr sj"
  shows "Inv sj \<and> queue_order sj = queue_order s"
  using assms
proof (induction j arbitrary: s)
  case 0
  then show ?case by simp
next
  case (Suc j)
  from turn_total[OF Suc.prems(1,2), of quantum] Suc.prems(3) obtain ls s1 where
    t: "turn quantum n s = Inr (ls, s1)" and i1: "Inv s1"
    and o1: "queue_order s1 = queue_order s" by auto
  from Suc.prems(4) t have "after_turns quantum n j s1 = Inr sj" by simp
  from Suc.IH[OF i1 _ _ this] Suc.prems(2,3) o1 show ?case by simp
qed

text \<open>
  What the loop's stop test decides, read off the scheduler: every registered queue holds
  no task, and no queue's skip flag is set.
\<close>

lemma drained_state:
  assumes "Inv s" and "distinct (queue_order s)"
  shows "drained s \<longleftrightarrow>
           (\<forall>qid q. map_of (queues s) qid = Some q \<longrightarrow> data q = []) \<and>
           (\<forall>qid. map_of (skip_flags s) qid \<noteq> Some True)"
proof -
  from assms have dq: "distinct (map fst (queues s))" and df: "distinct (map fst (skip_flags s))"
    by (simp_all add: Inv_def keys_ok_def)
  have "all_empty s \<longleftrightarrow> (\<forall>qid q. map_of (queues s) qid = Some q \<longrightarrow> data q = [])"
    using dq by (auto simp: all_empty_def list_all_iff QueueRR_len_def)
  moreover have "no_skips s \<longleftrightarrow> (\<forall>qid. map_of (skip_flags s) qid \<noteq> Some True)"
    using df by (auto simp: no_skips_def list_ex_iff)
  ultimately show ?thesis by (simp add: drained_def)
qed

section \<open>Unbounded runs\<close>

text \<open>
  Claim C7. In a reachable scheduler with \<open>n \<ge> 1\<close> queues, \<open>run(quantum, None)\<close>
  returns, for every quantum, after some number \<open>k\<close> of turns with \<open>1 \<le> k \<le> 100 n\<close>.
  It stops before the ceiling only in a scheduler where every registered queue holds no
  task and no queue's skip flag is set, and it stops at the first turn that leaves such a
  scheduler: after each earlier turn some registered queue held a task or some queue's
  flag was set.
\<close>

theorem C7_unbounded_run:
  assumes "reachable s" and "queue_order s \<noteq> []" and "n = int (length (queue_order s))"
  shows "\<exists>logs k s'.
           run_full s quantum None = Inr (logs, int k, s') \<and>
           run s quantum None = Inr (logs, s') \<and>
           1 \<le> k \<and> int k \<le> n * 100 \<and>
           after_turns quantum n k s = Inr s' \<and>
           (int k < n * 100 \<longrightarrow>
              (\<forall>qid q. map_of (queues s') qid = Some q \<longrightarrow> data q = []) \<and>
              (\<forall>qid. map_of (skip_flags s') qid \<noteq> Some True)) \<and>
           (\<forall>j. 1 \<le> j \<and> j < k \<longrightarrow>
              (\<exists>sj. after_turns quantum n j s = Inr sj \<and>
                 ((\<exists>qid q. map_of (queues sj) qid = Some q \<and> data q \<noteq> []) \<or>
                  (\<exists>qid. map_of (skip_flags sj) qid = Some True))))"
proof -
  from assms(1) have inv: "Inv s" by (rule reachable_Inv)
  from assms(1) have dist: "distinct (queue_order s)" by (rule reachable_distinct)
  from assms(2,3) have pos: "0 < n * 100" by simp
  from run_loop_unbounded[OF inv assms(2,3) pos, of quantum "[]"]
  obtain logs k s' where
    r: "run_loop quantum None n (n * 100) 0 [] s = Inr (logs, 0 + int k, s')"
    and k1: "1 \<le> k" and kb: "0 + int k \<le> n * 100"
    and at: "after_turns quantum n k s = Inr s'"
    and dr: "0 + int k < n * 100 \<longrightarrow> drained s'"
    and ea: "\<forall>j. 1 \<le> j \<and> j < k \<longrightarrow> (\<exists>sj. after_turns quantum n j s = Inr sj \<and> \<not> drained sj)"
    by blast
  have st: "drained sj \<longleftrightarrow>
           (\<forall>qid q. map_of (queues sj) qid = Some q \<longrightarrow> data q = []) \<and>
           (\<forall>qid. map_of (skip_flags sj) qid \<noteq> Some True)"
    if "after_turns quantum n j s = Inr sj" for j sj
  proof -
    from after_turns_Inv[OF inv assms(2,3) that] dist
    have "Inv sj" "distinct (queue_order sj)" by simp_all
    then show ?thesis by (rule drained_state)
  qed
  from r assms(2,3) have f: "run_full s quantum None = Inr (logs, int k, s')"
    by (simp add: run_full_def Let_def)
  then have ru: "run s quantum None = Inr (logs, s')" by (simp add: run_def)
  from dr st[OF at] have 1: "int k < n * 100 \<longrightarrow>
              (\<forall>qid q. map_of (queues s') qid = Some q \<longrightarrow> data q = []) \<and>
              (\<forall>qid. map_of (skip_flags s') qid \<noteq> Some True)" by simp
  have 2: "\<exists>sj. after_turns quantum n j s = Inr sj \<and>
                 ((\<exists>qid q. map_of (queues sj) qid = Some q \<and> data q \<noteq> []) \<or>
                  (\<exists>qid. map_of (skip_flags sj) qid = Some True))"
    if "1 \<le> j \<and> j < k" for j
  proof -
    from ea that obtain sj where a: "after_turns quantum n j s = Inr sj" and nd: "\<not> drained sj"
      by blast
    from nd st[OF a] have "(\<exists>qid q. map_of (queues sj) qid = Some q \<and> data q \<noteq> []) \<or>
                  (\<exists>qid. map_of (skip_flags sj) qid = Some True)" by blast
    with a show ?thesis by blast
  qed
  from f ru k1 kb at 1 2 show ?thesis
    by (intro exI[of _ logs] exI[of _ k] exI[of _ s']) simp
qed


theorem C7_unbounded_run_witness:
  "run_full ex_pending 1 None =
     Inr ([''time=0 event=run queue=c1'', ''display time=0 next=c2'',
           ''display menu=[americano:2,cappuccino:3,hot_chocolate:4,latte:3,macchiato:2,mocha:4,tea:1]'',
           ''display c1 [0/1] -> []'', ''display c2 [0/1] [ skip] -> []'',
           ''time=0 event=run queue=c2'', ''display time=0 next=c1'',
           ''display menu=[americano:2,cappuccino:3,hot_chocolate:4,latte:3,macchiato:2,mocha:4,tea:1]'',
           ''display c1 [0/1] -> []'', ''display c2 [0/1] -> []''],
          2,
          ex_pending\<lparr>skip_flags := [(''c1'', False), (''c2'', False)]\<rparr>) \<and>
   after_turns 1 2 1 ex_pending = Inr (ex_pending\<lparr>rr_index := 1\<rparr>) \<and>
   map_of (skip_flags (ex_pending\<lparr>rr_index := 1\<rparr>)) ''c2'' = Some True \<and>
   queues (ex_pending\<lparr>rr_index := 1\<rparr>) =
     [(''c1'', \<lparr>queue_id = ''c1'', capacity = 1, data = []\<rparr>),
      (''c2'', \<lparr>queue_id = ''c2'', capacity = 1, data = []\<rparr>)] \<and>
   run_full ex_full 1 None =
     Inr ([''time=0 event=run queue=c1'',
           ''time=1 event=work queue=c1 task=c1-001 remaining=2'',
           ''display time=1 next=c1'',
           ''display menu=[americano:2,cappuccino:3,hot_chocolate:4,latte:3,macchiato:2,mocha:4,tea:1]'',
           ''display c1 [1/1] -> [c1-001:2]'',
           ''time=1 event=run queue=c1'',
           ''time=2 event=work queue=c1 task=c1-001 remaining=1'',
           ''display time=2 next=c1'',
           ''display menu=[americano:2,cappuccino:3,hot_chocolate:4,latte:3,macchiato:2,mocha:4,tea:1]'',
           ''display c1 [1/1] -> [c1-001:1]'',
           ''time=2 event=run queue=c1'',
           ''time=3 event=finish queue=c1 task=c1-001'',
           ''display time=3 next=c1'',
           ''display menu=[americano:2,cappuccino:3,hot_chocolate:4,latte:3,macchiato:2,mocha:4,tea:1]'',
           ''display c1 [0/1] -> []''],
          3,
          ex_full\<lparr>time := 3,
            queues := [(''c1'', \<lparr>queue_id = ''c1'', capacity = 1, data = []\<rparr>)],
            rr_index := 0\<rparr>)"
proof -
  have ne: "queue_order ex_pending \<noteq> []" by code_simp
  have n: "(2::int) = int (length (queue_order ex_pending))" by code_simp
  have e: "run_full ex_pending 1 None =
     Inr ([''time=0 event=run queue=c1'', ''display time=0 next=c2'',
           ''display menu=[americano:2,cappuccino:3,hot_chocolate:4,latte:3,macchiato:2,mocha:4,tea:1]'',
           ''display c1 [0/1] -> []'', ''display c2 [0/1] [ skip] -> []'',
           ''time=0 event=run queue=c2'', ''display time=0 next=c1'',
           ''display menu=[americano:2,cappuccino:3,hot_chocolate:4,latte:3,macchiato:2,mocha:4,tea:1]'',
           ''display c1 [0/1] -> []'', ''display c2 [0/1] -> []''],
          2,
          ex_pending\<lparr>skip_flags := [(''c1'', False), (''c2'', False)]\<rparr>)" by code_simp
  have a1: "after_turns 1 2 1 ex_pending = Inr (ex_pending\<lparr>rr_index := 1\<rparr>)" by code_simp
  have q1: "queues (ex_pending\<lparr>rr_index := 1\<rparr>) =
     [(''c1'', \<lparr>queue_id = ''c1'', capacity = 1, data = []\<rparr>),
      (''c2'', \<lparr>queue_id = ''c2'', capacity = 1, data = []\<rparr>)]" by code_simp
  have noq: "\<not> (\<exists>qid q. map_of (queues (ex_pending\<lparr>rr_index := 1\<rparr>)) qid = Some q \<and> data q \<noteq> [])"
    unfolding q1 by (auto split: if_splits)
  have fl: "map_of (skip_flags (ex_pending\<lparr>rr_index := 1\<rparr>)) qid = Some True \<Longrightarrow> qid = ''c2''"
    for qid
  proof -
    have "skip_flags (ex_pending\<lparr>rr_index := 1\<rparr>) = [(''c1'', False), (''c2'', True)]"
      by code_simp
    then show "map_of (skip_flags (ex_pending\<lparr>rr_index := 1\<rparr>)) qid = Some True \<Longrightarrow> qid = ''c2''"
      by (auto split: if_splits)
  qed
  from C7_unbounded_run[OF reachable_ex_pending ne n, of 1] obtain logs k s' where
    r: "run_full ex_pending 1 None = Inr (logs, int k, s')"
    and ea: "\<forall>j. 1 \<le> j \<and> j < k \<longrightarrow>
              (\<exists>sj. after_turns 1 2 j ex_pending = Inr sj \<and>
                 ((\<exists>qid q. map_of (queues sj) qid = Some q \<and> data q \<noteq> []) \<or>
                  (\<exists>qid. map_of (skip_flags sj) qid = Some True)))" by blast
  from r e have "k = 2" by simp
  then have "1 \<le> (1::nat) \<and> (1::nat) < k" by simp
  with ea obtain sj where
    aj: "after_turns 1 2 1 ex_pending = Inr sj" and
    dj: "(\<exists>qid q. map_of (queues sj) qid = Some q \<and> data q \<noteq> []) \<or>
         (\<exists>qid. map_of (skip_flags sj) qid = Some True)" by blast
  from aj have "sj = ex_pending\<lparr>rr_index := 1\<rparr>" unfolding a1 by simp
  with dj have "(\<exists>qid q. map_of (queues (ex_pending\<lparr>rr_index := 1\<rparr>)) qid = Some q \<and> data q \<noteq> []) \<or>
                  (\<exists>qid. map_of (skip_flags (ex_pending\<lparr>rr_index := 1\<rparr>)) qid = Some True)"
    by simp
  with noq fl have f1: "map_of (skip_flags (ex_pending\<lparr>rr_index := 1\<rparr>)) ''c2'' = Some True"
    by blast
  have ne2: "queue_order ex_full \<noteq> []" by code_simp
  have n2: "(1::int) = int (length (queue_order ex_full))" by code_simp
  have e2: "run_full ex_full 1 None =
     Inr ([''time=0 event=run queue=c1'',
           ''time=1 event=work queue=c1 task=c1-001 remaining=2'',
           ''display time=1 next=c1'',
           ''display menu=[americano:2,cappuccino:3,hot_chocolate:4,latte:3,macchiato:2,mocha:4,tea:1]'',
           ''display c1 [1/1] -> [c1-001:2]'',
           ''time=1 event=run queue=c1'',
           ''time=2 event=work queue=c1 task=c1-001 remaining=1'',
           ''display time=2 next=c1'',
           ''display menu=[americano:2,cappuccino:3,hot_chocolate:4,latte:3,macchiato:2,mocha:4,tea:1]'',
           ''display c1 [1/1] -> [c1-001:1]'',
           ''time=2 event=run queue=c1'',
           ''time=3 event=finish queue=c1 task=c1-001'',
           ''display time=3 next=c1'',
           ''display menu=[americano:2,cappuccino:3,hot_chocolate:4,latte:3,macchiato:2,mocha:4,tea:1]'',
           ''display c1 [0/1] -> []''],
          3,
          ex_full\<lparr>time := 3,
            queues := [(''c1'', \<lparr>queue_id = ''c1'', capacity = 1, data = []\<rparr>)],
            rr_index := 0\<rparr>)" by code_simp
  from e a1 f1 q1 e2 show ?thesis by blast
qed

text \<open>
  A \<open>run\<close> is a sequence of turns, so the scheduler it returns is reachable.
\<close>

lemma run_loop_steps:
  assumes "Inv s" and "queue_order s \<noteq> []" and "n = int (length (queue_order s))"
    and "run_loop quantum steps n turns td logs s = Inr (logs', td', s')"
  shows "rtranclp step s s'"
  using assms
proof (induction "nat (turns - td)" arbitrary: td logs s)
  case 0
  then show ?case by (simp add: run_loop.simps[of _ _ _ turns td])
next
  case (Suc m)
  then have lt: "td < turns" by simp
  from Suc.prems(2,3) have n0: "n \<noteq> 0" by simp
  from turn_total[OF Suc.prems(1,2), of quantum] Suc.prems(3) obtain ls s1 where
    t: "turn quantum n s = Inr (ls, s1)" and i1: "Inv s1"
    and o1: "queue_order s1 = queue_order s" by auto
  from t Suc.prems(2,3) have st: "step s s1" by (auto intro: step_turn)
  show ?case
  proof (cases "steps = None \<and> all_empty s1 \<and> no_skips s1")
    case True
    with Suc.prems(4) t lt n0 have "s' = s1"
      by (simp add: run_loop.simps[of _ _ _ turns td])
    with st show ?thesis by simp
  next
    case False
    with Suc.prems(4) t lt n0
    have r: "run_loop quantum steps n turns (td + 1) (logs @ ls) s1 = Inr (logs', td', s')"
      by (auto simp: run_loop.simps[of _ _ _ turns td])
    from Suc.hyps(2) have m: "m = nat (turns - (td + 1))" by simp
    from Suc.hyps(1)[OF m i1 _ _ r] Suc.prems(2,3) o1 have "rtranclp step s1 s'" by simp
    with st show ?thesis by simp
  qed
qed

lemma run_reachable:
  assumes "reachable s" and "run s quantum steps = Inr (logs, s')"
  shows "reachable s'"
proof (cases "queue_order s = []")
  case True
  with assms show ?thesis by (simp add: run_def run_full_def)
next
  case False
  from assms(1) have inv: "Inv s" by (rule reachable_Inv)
  from assms(2) False have "s' = s \<or> (\<exists>turns l td.
      run_loop quantum steps (int (length (queue_order s))) turns 0 [] s = Inr (l, td, s'))"
    by (auto simp: run_def run_full_def Let_def split: option.splits if_splits sum.splits)
  then show ?thesis
  proof
    assume "s' = s"
    with assms(1) show ?thesis by simp
  next
    assume "\<exists>turns l td.
      run_loop quantum steps (int (length (queue_order s))) turns 0 [] s = Inr (l, td, s')"
    then obtain turns l td where
      "run_loop quantum steps (int (length (queue_order s))) turns 0 [] s = Inr (l, td, s')"
      by blast
    from run_loop_steps[OF inv False refl this] assms(1) show ?thesis
      by (rule reachable_steps[rotated])
  qed
qed

end
